theory Spec2Isabelle
  imports Complex_Main
begin

section \<open>Strings\<close>

text \<open>
  A JavaScript string is modelled as a \<^typ>\<open>string\<close>, a list of 8-bit characters read as
  code units. SMTP replies are 7-bit ASCII (RFC 5321), and on ASCII text every function
  below agrees with its JavaScript original; code units above 255 are outside the model,
  except in the credentials (see the section on authentication).
\<close>

abbreviation CR :: char where "CR \<equiv> CHR 0x0D"
abbreviation LF :: char where "LF \<equiv> CHR 0x0A"

text \<open>\<^verbatim>\<open>const CRLF = "\r\n";\<close>\<close>

abbreviation CRLF :: string where "CRLF \<equiv> [CR, LF]"

text \<open>\<^verbatim>\<open>s.startsWith(p)\<close>\<close>

definition startsWith :: "string \<Rightarrow> string \<Rightarrow> bool" where
  "startsWith s p \<longleftrightarrow> take (length p) s = p"

text \<open>
  \<^verbatim>\<open>message.split(CRLF)\<close>: the separator is searched from left to right, matches do not
  overlap, and the empty string splits into one empty line. \<open>cons_first\<close> puts a character
  in front of the line being collected.
\<close>

definition cons_first :: "char \<Rightarrow> string list \<Rightarrow> string list" where
  "cons_first c ls = (case ls of [] \<Rightarrow> [[c]] | l # ls' \<Rightarrow> (c # l) # ls')"

fun split_CRLF :: "string \<Rightarrow> string list" where
  "split_CRLF [] = [[]]"
| "split_CRLF [c] = [[c]]"
| "split_CRLF (c # d # cs) =
     (if c = CR \<and> d = LF then [] # split_CRLF cs
      else cons_first c (split_CRLF (d # cs)))"

text \<open>\<^verbatim>\<open>lines.join(sep)\<close>\<close>

fun join :: "string \<Rightarrow> string list \<Rightarrow> string" where
  "join sep [] = []"
| "join sep [l] = l"
| "join sep (l # m # ls) = l @ sep @ join sep (m # ls)"

text \<open>
  The white space of \<^verbatim>\<open>String.prototype.trim\<close>, of \<^verbatim>\<open>\s\<close> in a regular expression
  and of the numeric string grammar, as far as it lies below 256: TAB, LF, VT, FF, CR,
  SP and NBSP.
\<close>

definition isWhiteSpace :: "char \<Rightarrow> bool" where
  "isWhiteSpace c \<longleftrightarrow> (of_char c :: nat) \<in> {9, 10, 11, 12, 13, 32, 160}"

definition trim :: "string \<Rightarrow> string" where
  "trim s = rev (dropWhile isWhiteSpace (rev (dropWhile isWhiteSpace s)))"

text \<open>\<^verbatim>\<open>\d\<close>: an ASCII digit.\<close>

definition isDigit :: "char \<Rightarrow> bool" where
  "isDigit c \<longleftrightarrow> 48 \<le> (of_char c :: nat) \<and> (of_char c :: nat) \<le> 57"

text \<open>
  \<^verbatim>\<open>toUpperCase()\<close> on ASCII letters. (The few characters between 128 and 255 that
  JavaScript maps elsewhere never yield an ASCII letter of the words looked for below.)
\<close>

definition toUpperCase :: "string \<Rightarrow> string" where
  "toUpperCase s =
     map (\<lambda>c. if 97 \<le> (of_char c :: nat) \<and> (of_char c :: nat) \<le> 122
                then char_of ((of_char c :: nat) - 32) else c) s"

text \<open>
  \<^verbatim>\<open>s.split(/\s+/)\<close>: every maximal run of white space separates two tokens, so a string
  that starts with white space has an empty first token.
\<close>

function split_ws :: "string \<Rightarrow> string list" where
  "split_ws [] = [[]]"
| "split_ws (c # cs) =
     (if isWhiteSpace c then [] # split_ws (dropWhile isWhiteSpace cs)
      else (case split_ws cs of [] \<Rightarrow> [[c]] | t # ts \<Rightarrow> (c # t) # ts))"
  by pat_completeness auto
termination
  by (relation "measure length") (auto simp: less_Suc_eq_le length_dropWhile_le)

subsection \<open>The numeric value of a string\<close>

text \<open>
  \<^verbatim>\<open>Number(s)\<close> followed by \<^verbatim>\<open>Number.isFinite\<close>, after the StringNumericLiteral grammar of
  ECMAScript: optional white space around either nothing (the value 0), a binary, octal or
  hexadecimal integer with its \<^verbatim>\<open>0b\<close>, \<^verbatim>\<open>0o\<close>, \<^verbatim>\<open>0x\<close> prefix, or an optionally signed decimal
  literal with an optional fraction and exponent. \<open>finiteNumber s\<close> is \<open>Some v\<close> when
  \<^verbatim>\<open>Number(s)\<close> is finite with mathematical value \<open>v\<close>, and \<open>None\<close> when it is NaN
  (or infinite: the literal \<^verbatim>\<open>Infinity\<close> has no digit and yields \<open>None\<close> here). The
  reader only passes strings of at most three code units, where no rounding to infinity
  can happen; the rounding of a fraction to the nearest double, and the sign of zero, are
  not modelled: no comparison below depends on them.
\<close>

definition radixDigit :: "nat \<Rightarrow> char \<Rightarrow> nat option" where
  "radixDigit b c =
     (let n = (of_char c :: nat);
          v = (if 48 \<le> n \<and> n \<le> 57 then Some (n - 48)
               else if 97 \<le> n \<and> n \<le> 102 then Some (n - 87)
               else if 65 \<le> n \<and> n \<le> 70 then Some (n - 55)
               else None)
      in case v of None \<Rightarrow> None | Some d \<Rightarrow> if d < b then Some d else None)"

fun radixValue :: "nat \<Rightarrow> nat \<Rightarrow> string \<Rightarrow> nat option" where
  "radixValue b acc [] = Some acc"
| "radixValue b acc (c # cs) =
     (case radixDigit b c of None \<Rightarrow> None | Some d \<Rightarrow> radixValue b (b * acc + d) cs)"

definition radixLiteral :: "nat \<Rightarrow> string \<Rightarrow> rat option" where
  "radixLiteral b ds = (if ds = [] then None else map_option of_nat (radixValue b 0 ds))"

definition decimalDigits :: "string \<Rightarrow> nat option" where
  "decimalDigits ds = (if ds = [] then None else radixValue 10 0 ds)"

definition signedInteger :: "string \<Rightarrow> int option" where
  "signedInteger s =
     (case s of
        [] \<Rightarrow> None
      | c # r \<Rightarrow>
          if c = CHR ''+'' then map_option int (decimalDigits r)
          else if c = CHR ''-'' then map_option (\<lambda>n. - int n) (decimalDigits r)
          else map_option int (decimalDigits s))"

definition scale10 :: "rat \<Rightarrow> int \<Rightarrow> rat" where
  "scale10 m e = (if 0 \<le> e then m * 10 ^ nat e else m / 10 ^ nat (- e))"

definition strUnsignedDecimalLiteral :: "string \<Rightarrow> rat option" where
  "strUnsignedDecimalLiteral s =
     (let ip = takeWhile isDigit s;
          r1 = dropWhile isDigit s;
          hasDot = (r1 \<noteq> [] \<and> hd r1 = CHR ''.'');
          fp = (if hasDot then takeWhile isDigit (tl r1) else []);
          r2 = (if hasDot then dropWhile isDigit (tl r1) else r1)
      in if ip = [] \<and> fp = [] then None
         else case radixValue 10 0 (ip @ fp) of
           None \<Rightarrow> None
         | Some m \<Rightarrow>
             (case r2 of
                [] \<Rightarrow> Some (scale10 (of_nat m) (- int (length fp)))
              | c # r3 \<Rightarrow>
                  if c = CHR ''e'' \<or> c = CHR ''E'' then
                    (case signedInteger r3 of
                       None \<Rightarrow> None
                     | Some e \<Rightarrow> Some (scale10 (of_nat m) (e - int (length fp))))
                  else None))"

definition strDecimalLiteral :: "string \<Rightarrow> rat option" where
  "strDecimalLiteral s =
     (case s of
        [] \<Rightarrow> None
      | c # r \<Rightarrow>
          if c = CHR ''+'' then strUnsignedDecimalLiteral r
          else if c = CHR ''-'' then map_option uminus (strUnsignedDecimalLiteral r)
          else strUnsignedDecimalLiteral s)"

definition finiteNumber :: "string \<Rightarrow> rat option" where
  "finiteNumber s =
     (let t = trim s
      in if t = [] then Some 0
         else if startsWith t ''0x'' \<or> startsWith t ''0X'' then radixLiteral 16 (drop 2 t)
         else if startsWith t ''0o'' \<or> startsWith t ''0O'' then radixLiteral 8 (drop 2 t)
         else if startsWith t ''0b'' \<or> startsWith t ''0B'' then radixLiteral 2 (drop 2 t)
         else strDecimalLiteral t)"

text \<open>
  The base64 text of a list of bytes (numbers below 256), three bytes to four characters,
  with \<^verbatim>\<open>=\<close> padding: what \<^verbatim>\<open>btoa\<close> computes once it has accepted its argument.
\<close>

definition base64Alphabet :: string where
  "base64Alphabet = ''ABCDEFGHIJKLMNOPQRSTUVWXYZabcdefghijklmnopqrstuvwxyz0123456789+/''"

fun base64 :: "nat list \<Rightarrow> string" where
  "base64 [] = []"
| "base64 [x] =
     [base64Alphabet ! (x div 4), base64Alphabet ! ((x mod 4) * 16), CHR ''='', CHR ''='']"
| "base64 [x, y] =
     [base64Alphabet ! (x div 4), base64Alphabet ! ((x mod 4) * 16 + y div 16),
      base64Alphabet ! ((y mod 16) * 4), CHR ''='']"
| "base64 (x # y # z # rest) =
     [base64Alphabet ! (x div 4), base64Alphabet ! ((x mod 4) * 16 + y div 16),
      base64Alphabet ! ((y mod 16) * 4 + z div 64), base64Alphabet ! (z mod 64)] @ base64 rest"

section \<open>Dot-stuffing (dot-stuff)\<close>

text \<open>
  \<^verbatim>\<open>
  export function dotStuff(message: string): string {
    return message
      .split(CRLF)
      .map((line) => (line.startsWith(".") ? `.${line}` : line))
      .join(CRLF);
  }
  \<close>
  \<open>stuffLine\<close> is the function mapped over the lines.
\<close>

definition stuffLine :: "string \<Rightarrow> string" where
  "stuffLine line = (if startsWith line ''.'' then ''.'' @ line else line)"

definition dotStuff :: "string \<Rightarrow> string" where
  "dotStuff message = join CRLF (map stuffLine (split_CRLF message))"

section \<open>Transport mode selection (get-smtp-secure-transport)\<close>

text \<open>
  \<^verbatim>\<open>export type SmtpSecureTransport = "off" | "on" | "starttls";\<close>
  The three socket modes: plain TCP, TLS from the first byte, and plain TCP that is
  upgraded with \<^verbatim>\<open>startTls()\<close>.
\<close>

datatype SmtpSecureTransport = Off | On | Starttls

text \<open>
  \<^verbatim>\<open>getSmtpSecureTransport(input: { port: number; secure?: boolean })\<close>.
  The port is an integer here (the public entry point only lets positive integers
  through); the optional flag is \<open>None\<close> when unset. The order of the tests is the
  order of the source.
\<close>

definition getSmtpSecureTransport :: "int \<Rightarrow> bool option \<Rightarrow> SmtpSecureTransport" where
  "getSmtpSecureTransport p sec =
     (if p = 465 then On
      else if p = 587 then Starttls
      else if sec = Some True then On
      else if sec = Some False then Off
      else Off)"

section \<open>Errors and replies\<close>

text \<open>
  Every \<^verbatim>\<open>throw new Error(...)\<close> of the source is a constructor, named after the error
  taxonomy of the specification and carrying what the message of the source holds:
  \<^item> \<open>UnsupportedPort\<close>: \<^verbatim>\<open>"Port 25 is not supported on Cloudflare Workers"\<close>;
  \<^item> \<open>ConnectionClosed\<close>: \<^verbatim>\<open>"SMTP connection closed unexpectedly"\<close>;
  \<^item> \<open>MalformedResponse first\<close>: \<^verbatim>\<open>`Invalid SMTP response line: ${first}`\<close>;
  \<^item> \<open>ProtocolError context code lines\<close>: the error of \<^verbatim>\<open>assertSmtpOk\<close>,
    \<^verbatim>\<open>`${context} failed with code ${code}: ${lines.join(" | ")}`\<close>; the authentication
    steps raise it too, with their own context labels;
  \<^item> \<open>AuthUnsupported\<close>: \<^verbatim>\<open>"SMTP server does not support AUTH PLAIN or AUTH LOGIN"\<close>;
  \<^item> \<open>InvalidCharacter\<close>: the \<^verbatim>\<open>InvalidCharacterError\<close> that the platform's \<^verbatim>\<open>btoa\<close> throws
    when its argument holds a code unit above 255;
  \<^item> \<open>ValidationError\<close>: the error thrown when a Zod schema rejects the input (its
    message, the first issue of the schema, is not modelled).
\<close>

datatype error =
    UnsupportedPort
  | ConnectionClosed
  | MalformedResponse string
  | ProtocolError string rat "string list"
  | AuthUnsupported
  | InvalidCharacter
  | ValidationError

text \<open>\<^verbatim>\<open>export type SmtpResponse = { code: number; lines: string[] };\<close>\<close>

record SmtpResponse =
  code :: rat
  lines :: "string list"

section \<open>The response reader (read-smtp-response)\<close>

text \<open>
  The read half of a socket is the list of chunks that \<^verbatim>\<open>reader.read()\<close> will deliver, in
  order; after the last one the stream is done. A chunk stands for the text that
  \<^verbatim>\<open>decoder.decode(result.value, { stream: true })\<close> returns for it. Each function returns
  the chunks that are still unread next to its result.
\<close>

type_synonym chunk = string

text \<open>
  \<^verbatim>\<open>
  while (!buffer.includes("\n")) {
    const result = await input.reader.read();
    if (result.done) { throw new Error("SMTP connection closed unexpectedly"); }
    buffer += input.decoder.decode(result.value, { stream: true });
  }
  \<close>
\<close>

fun fillBuffer :: "string \<Rightarrow> chunk list \<Rightarrow> (error + string) \<times> chunk list" where
  "fillBuffer buffer [] =
     (if LF \<in> set buffer then (Inr buffer, []) else (Inl ConnectionClosed, []))"
| "fillBuffer buffer (c # cs) =
     (if LF \<in> set buffer then (Inr buffer, c # cs) else fillBuffer (buffer @ c) cs)"

text \<open>
  \<^verbatim>\<open>rawLine.replace(/\r?\n$/, "")\<close>, given the raw line without its final LF: one CR before
  the LF goes with it.
\<close>

definition stripLineEnd :: "string \<Rightarrow> string" where
  "stripLineEnd x = (if x \<noteq> [] \<and> last x = CR then butlast x else x)"

text \<open>
  \<^verbatim>\<open>
  const newlineIndex = buffer.indexOf("\n");
  const rawLine = buffer.slice(0, newlineIndex + 1);
  buffer = buffer.slice(newlineIndex + 1);
  return rawLine.replace(/\r?\n$/, "");
  \<close>
  The closure \<^verbatim>\<open>readLine\<close> updates the local variable \<^verbatim>\<open>buffer\<close>; here it takes the
  buffer and returns the line with the new buffer.
\<close>

definition readLine :: "string \<Rightarrow> chunk list \<Rightarrow> (error + string \<times> string) \<times> chunk list" where
  "readLine buffer cs =
     (case fillBuffer buffer cs of
        (Inl e, cs') \<Rightarrow> (Inl e, cs')
      | (Inr b, cs') \<Rightarrow>
          (Inr (stripLineEnd (takeWhile (\<lambda>c. c \<noteq> LF) b), tl (dropWhile (\<lambda>c. c \<noteq> LF) b)), cs'))"

text \<open>
  \<^verbatim>\<open>
  while (true) {
    const line = await readLine();
    lines.push(line);
    if (line.startsWith(codeStr + " ")) { break; }
  }
  \<close>
  Every line read takes at least its LF out of what is buffered or still unread, which
  is the measure of the termination proof.
\<close>

function readMore ::
  "string \<Rightarrow> string list \<Rightarrow> string \<Rightarrow> chunk list \<Rightarrow> (error + string list) \<times> chunk list" where
  "readMore codeStr ls buffer cs =
     (case readLine buffer cs of
        (Inl e, cs') \<Rightarrow> (Inl e, cs')
      | (Inr (line, buffer'), cs') \<Rightarrow>
          if startsWith line (codeStr @ '' '') then (Inr (ls @ [line]), cs')
          else readMore codeStr (ls @ [line]) buffer' cs')"
  by pat_completeness auto
termination
proof (relation "measure (\<lambda>(codeStr, ls, buffer, cs). length buffer + length (concat cs))",
    goal_cases)
  case 1
  show ?case by simp
next
  case (2 codeStr ls buffer cs res cs' lb line buffer')
  have fill: "fillBuffer b ds = (Inr b', ds') \<Longrightarrow>
      LF \<in> set b' \<and> length b' + length (concat ds') = length b + length (concat ds)"
    for b b' :: string and ds ds' :: "chunk list"
    by (induction ds arbitrary: b) (auto split: if_splits)
  from 2 obtain b where f: "fillBuffer buffer cs = (Inr b, cs')"
    and b': "buffer' = tl (dropWhile (\<lambda>c. c \<noteq> LF) b)"
    by (auto simp: readLine_def split: sum.splits prod.splits)
  from fill[OF f] have lf: "LF \<in> set b"
    and len: "length b + length (concat cs') = length buffer + length (concat cs)" by auto
  from lf have "dropWhile (\<lambda>c. c \<noteq> LF) b \<noteq> []" by (simp add: dropWhile_eq_Nil_conv)
  then have "length (tl (dropWhile (\<lambda>c. c \<noteq> LF) b)) < length (dropWhile (\<lambda>c. c \<noteq> LF) b)"
    by (cases "dropWhile (\<lambda>c. c \<noteq> LF) b") auto
  also have "\<dots> \<le> length b" by (rule length_dropWhile_le)
  finally have "length buffer' < length b" using b' by simp
  with len 2 show ?case by auto
qed

declare readMore.simps [simp del]

text \<open>
  \<^verbatim>\<open>
  let buffer = "";
  const lines: string[] = [];
  const first = await readLine();
  lines.push(first);
  const codeStr = first.slice(0, 3);
  const code = Number(codeStr);
  if (!Number.isFinite(code) || codeStr.length !== 3) {
    throw new Error(`Invalid SMTP response line: ${first}`);
  }
  const isMultiline = first[3] === "-";
  if (!isMultiline) { return { code, lines }; }
  while (true) { ... }
  return { code, lines };
  \<close>
  The buffer starts empty at every call and is not part of the result.
\<close>

definition readSmtpResponse :: "chunk list \<Rightarrow> (error + SmtpResponse) \<times> chunk list" where
  "readSmtpResponse cs =
     (case readLine [] cs of
        (Inl e, cs1) \<Rightarrow> (Inl e, cs1)
      | (Inr (first, buffer), cs1) \<Rightarrow>
          (let codeStr = take 3 first in
           case finiteNumber codeStr of
             None \<Rightarrow> (Inl (MalformedResponse first), cs1)
           | Some c \<Rightarrow>
               if length codeStr \<noteq> 3 then (Inl (MalformedResponse first), cs1)
               else if \<not> (3 < length first \<and> first ! 3 = CHR ''-'')
                 then (Inr \<lparr>code = c, lines = [first]\<rparr>, cs1)
               else (case readMore codeStr [first] buffer cs1 of
                       (Inl e, cs2) \<Rightarrow> (Inl e, cs2)
                     | (Inr ls, cs2) \<Rightarrow> (Inr \<lparr>code = c, lines = ls\<rparr>, cs2))))"

text \<open>
  The Reply invariant as the specification words it: the lines are not empty, the last
  line starts with three ASCII digits that are the code, followed by a space, and every
  earlier line starts with the same three digits followed by a hyphen.
\<close>

definition reply_invariant :: "SmtpResponse \<Rightarrow> bool" where
  "reply_invariant r \<longleftrightarrow>
     lines r \<noteq> [] \<and>
     (let d = take 3 (last (lines r))
      in length d = 3 \<and> list_all isDigit d \<and> finiteNumber d = Some (code r)
         \<and> startsWith (last (lines r)) (d @ '' '')
         \<and> list_all (\<lambda>l. startsWith l (d @ ''-'')) (butlast (lines r)))"

section \<open>The transport and the state of one send\<close>

text \<open>
  A send talks to one server over the socket that \<^verbatim>\<open>connect\<close> opens (\<open>Initial\<close>) and, after
  \<^verbatim>\<open>socket.startTls()\<close>, over the socket this returns (\<open>Upgraded\<close>). What the program does to
  the outside is recorded as a trace of events, in order:
  \<^item> \<open>Connect hostname port secureTransport\<close>: \<^verbatim>\<open>connect({ hostname, port }, { secureTransport, allowHalfOpen: false })\<close>;
  \<^item> \<open>Write sock text\<close>: \<^verbatim>\<open>writer.write(encoder.encode(text))\<close> on the writer of that socket;
  \<^item> \<open>StartTls\<close>: \<^verbatim>\<open>socket.startTls()\<close>;
  \<^item> \<open>Close sock\<close>: \<^verbatim>\<open>socket.close()\<close> or \<^verbatim>\<open>secureSocket.close()\<close>.
\<close>

datatype sock = Initial | Upgraded

datatype event =
    Connect string int SmtpSecureTransport
  | Write sock string
  | StartTls
  | Close sock

text \<open>
  The world of one send: what the server will deliver on each socket, the generator behind
  \<^verbatim>\<open>crypto.randomUUID()\<close> with the number of identifiers drawn so far, and the trace. A read
  ends with the stream done when the chunks run out; reads and writes that reject are not
  modelled.
\<close>

record world =
  initial_in :: "chunk list"
  upgraded_in :: "chunk list"
  uuid_gen :: "nat \<Rightarrow> string"
  uuid_count :: nat
  trace :: "event list"

text \<open>
  An \<^verbatim>\<open>async\<close> computation: it takes the world and returns the world it leaves behind with
  either the error thrown or the value returned. \<open>io_bind\<close> is \<^verbatim>\<open>await\<close> followed by the
  rest of the function: an error ends the computation there.
\<close>

type_synonym 'a io = "world \<Rightarrow> (error + 'a) \<times> world"

definition io_return :: "'a \<Rightarrow> 'a io" where
  "io_return x w = (Inr x, w)"

definition io_throw :: "error \<Rightarrow> 'a io" where
  "io_throw e w = (Inl e, w)"

definition io_bind :: "'a io \<Rightarrow> ('a \<Rightarrow> 'b io) \<Rightarrow> 'b io" where
  "io_bind m f w = (case m w of (Inl e, w') \<Rightarrow> (Inl e, w') | (Inr x, w') \<Rightarrow> f x w')"

definition emit :: "event \<Rightarrow> unit io" where
  "emit ev w = (Inr (), w\<lparr>trace := trace w @ [ev]\<rparr>)"

definition connect :: "string \<Rightarrow> int \<Rightarrow> SmtpSecureTransport \<Rightarrow> unit io" where
  "connect hostname p secureTransport = emit (Connect hostname p secureTransport)"

definition startTls :: "unit io" where
  "startTls = emit StartTls"

definition close :: "sock \<Rightarrow> unit io" where
  "close s = emit (Close s)"

definition writer_write :: "sock \<Rightarrow> string \<Rightarrow> unit io" where
  "writer_write s payload = emit (Write s payload)"

definition randomUUID :: "string io" where
  "randomUUID w = (Inr (uuid_gen w (uuid_count w)), w\<lparr>uuid_count := Suc (uuid_count w)\<rparr>)"

text \<open>\<^verbatim>\<open>readSmtpResponse({ reader, decoder })\<close> on the reader of a socket.\<close>

definition readReply :: "sock \<Rightarrow> SmtpResponse io" where
  "readReply s w =
     (case s of
        Initial \<Rightarrow>
          (case readSmtpResponse (initial_in w) of (r, cs) \<Rightarrow> (r, w\<lparr>initial_in := cs\<rparr>))
      | Upgraded \<Rightarrow>
          (case readSmtpResponse (upgraded_in w) of (r, cs) \<Rightarrow> (r, w\<lparr>upgraded_in := cs\<rparr>)))"

text \<open>
  \<^verbatim>\<open>
  const payload = input.encoder.encode(`${input.command}\r\n`);
  await input.writer.write(payload);
  \<close>
\<close>

definition writeSmtpCommand :: "sock \<Rightarrow> string \<Rightarrow> unit io" where
  "writeSmtpCommand s command = writer_write s (command @ CRLF)"

text \<open>
  \<^verbatim>\<open>
  if (input.expectedCodes.includes(input.response.code)) { return; }
  throw new Error(`${input.context} failed with code ${input.response.code}: ${input.response.lines.join(" | ")}`);
  \<close>
\<close>

definition assertSmtpOk :: "SmtpResponse \<Rightarrow> rat list \<Rightarrow> string \<Rightarrow> unit io" where
  "assertSmtpOk response expectedCodes context =
     (if code response \<in> set expectedCodes then io_return ()
      else io_throw (ProtocolError context (code response) (lines response)))"

section \<open>Capabilities (parse-smtp-capabilities)\<close>

text \<open>
  \<^verbatim>\<open>export type SmtpCapabilities = { auth: { plain: boolean; login: boolean } };\<close>
  (the one nested object is flattened).
\<close>

record SmtpCapabilities =
  plain :: bool
  login :: bool

text \<open>\<^verbatim>\<open>line.replace(/^\d{3}[ -]/, "")\<close>\<close>

definition stripReplyCode :: "string \<Rightarrow> string" where
  "stripReplyCode line =
     (if 4 \<le> length line \<and> isDigit (line ! 0) \<and> isDigit (line ! 1) \<and> isDigit (line ! 2)
         \<and> (line ! 3 = CHR '' '' \<or> line ! 3 = CHR ''-'')
      then drop 4 line else line)"

text \<open>
  \<^verbatim>\<open>
  const normalized = ehlo.lines
    .map((line) => line.replace(/^\d{3}[ -]/, "").trim().toUpperCase())
    .filter((line) => line.length > 0);
  const authLine = normalized.find((line) => line.startsWith("AUTH "));
  const methods = authLine ? authLine.slice("AUTH ".length).split(/\s+/) : [];
  return { auth: { plain: methods.includes("PLAIN"), login: methods.includes("LOGIN") } };
  \<close>
\<close>

definition parseSmtpCapabilities :: "SmtpResponse \<Rightarrow> SmtpCapabilities" where
  "parseSmtpCapabilities ehlo =
     (let normalized =
            filter (\<lambda>line. 0 < length line)
              (map (\<lambda>line. toUpperCase (trim (stripReplyCode line))) (lines ehlo));
          authLine = find (\<lambda>line. startsWith line ''AUTH '') normalized;
          methods = (case authLine of
                       Some l \<Rightarrow> split_ws (drop (length ''AUTH '') l)
                     | None \<Rightarrow> [])
      in \<lparr>plain = ''PLAIN'' \<in> set methods, login = ''LOGIN'' \<in> set methods\<rparr>)"

section \<open>Authentication (smtp-auth)\<close>

text \<open>
  The user name and the password are strings of UTF-16 code units, given as the list of
  their numbers: \<^verbatim>\<open>btoa\<close> tells the code units above 255 from the others, and a
  \<^typ>\<open>string\<close> cannot hold them. \<open>units\<close> turns an 8-bit string into its code units.
\<close>

type_synonym code_units = "nat list"

definition units :: "string \<Rightarrow> code_units" where
  "units s = map of_char s"

record Credentials =
  user :: code_units
  pass :: code_units

text \<open>
  \<^verbatim>\<open>btoa(s)\<close>: the base64 text of the code units of \<open>s\<close>, each taken as a byte; it throws
  an \<^verbatim>\<open>InvalidCharacterError\<close> when a code unit is above 255.
\<close>

definition btoa :: "code_units \<Rightarrow> error + string" where
  "btoa s = (if list_all (\<lambda>u. u \<le> 255) s then Inr (base64 s) else Inl InvalidCharacter)"

text \<open>
  \<^verbatim>\<open>smtpAuth(input: SmtpAuthInput)\<close>; the reader and writer of the input are those of the
  socket \<open>s\<close>. The three branches are those of the source, in its order: AUTH PLAIN when
  advertised, else AUTH LOGIN when advertised, else the error. Each \<^verbatim>\<open>btoa(...)\<close> is
  evaluated where the source evaluates it: for PLAIN before anything is written
  (\<^verbatim>\<open>const authPlain = btoa(`\u0000${input.auth.user}\u0000${input.auth.pass}`)\<close>), for
  LOGIN as the argument of the command that carries the user name or the password, after
  the challenge before it has been accepted.
\<close>

definition smtpAuth :: "SmtpCapabilities \<Rightarrow> Credentials \<Rightarrow> sock \<Rightarrow> unit io" where
  "smtpAuth capabilities creds s =
     (if plain capabilities then
        (case btoa ([0] @ user creds @ [0] @ pass creds) of
           Inl e \<Rightarrow> io_throw e
         | Inr authPlain \<Rightarrow>
             io_bind (writeSmtpCommand s (''AUTH PLAIN '' @ authPlain)) (\<lambda>_.
             io_bind (readReply s) (\<lambda>resp.
             assertSmtpOk resp [235] ''AUTH PLAIN'')))
      else if login capabilities then
         io_bind (writeSmtpCommand s ''AUTH LOGIN'') (\<lambda>_.
         io_bind (readReply s) (\<lambda>challenge1.
         io_bind (assertSmtpOk challenge1 [334] ''AUTH LOGIN (challenge user)'') (\<lambda>_.
         (case btoa (user creds) of
            Inl e \<Rightarrow> io_throw e
          | Inr encodedUser \<Rightarrow>
              io_bind (writeSmtpCommand s encodedUser) (\<lambda>_.
              io_bind (readReply s) (\<lambda>challenge2.
              io_bind (assertSmtpOk challenge2 [334] ''AUTH LOGIN (challenge pass)'') (\<lambda>_.
              (case btoa (pass creds) of
                 Inl e \<Rightarrow> io_throw e
               | Inr encodedPass \<Rightarrow>
                   io_bind (writeSmtpCommand s encodedPass) (\<lambda>_.
                   io_bind (readReply s) (\<lambda>ok.
                   assertSmtpOk ok [235] ''AUTH LOGIN''))))))))))
      else io_throw AuthUnsupported)"

section \<open>The message (create-message)\<close>

text \<open>The \<^verbatim>\<open>mail\<close> object handed to \<^verbatim>\<open>smtpSendMail\<close> and \<^verbatim>\<open>createMessage\<close>.\<close>

record Mail =
  mail_from :: string
  mail_to :: "string list"
  subject :: string
  mail_text :: "string option"
  mail_html :: "string option"

text \<open>
  \<^verbatim>\<open>if (input.html)\<close>: an optional string counts as true when it is present and not empty.
\<close>

definition truthy :: "string option \<Rightarrow> bool" where
  "truthy s \<longleftrightarrow> (case s of None \<Rightarrow> False | Some v \<Rightarrow> v \<noteq> [])"

text \<open>
  \<^verbatim>\<open>createMessage\<close>: four headers; then a multipart/alternative body with a fresh boundary
  when both parts are present, else the html part alone, else the text part (the empty
  string when there is none).
\<close>

definition createMessage :: "Mail \<Rightarrow> string io" where
  "createMessage input =
     (let headers = [''From: '' @ mail_from input,
                     ''To: '' @ join '', '' (mail_to input),
                     ''Subject: '' @ subject input,
                     ''MIME-Version: 1.0'']
      in if truthy (mail_html input) \<and> truthy (mail_text input) then
           io_bind randomUUID (\<lambda>uuid.
             let boundary = ''cf-mailer-'' @ uuid;
                 headers' = headers @
                   [''Content-Type: multipart/alternative; boundary='' @ [CHR 0x22] @ boundary
                      @ [CHR 0x22]];
                 parts = [''--'' @ boundary,
                          ''Content-Type: text/plain; charset='' @ [CHR 0x22] @ ''utf-8'' @ [CHR 0x22],
                          '''',
                          the (mail_text input),
                          ''--'' @ boundary,
                          ''Content-Type: text/html; charset='' @ [CHR 0x22] @ ''utf-8'' @ [CHR 0x22],
                          '''',
                          the (mail_html input),
                          ''--'' @ boundary @ ''--'']
             in io_return (join CRLF headers' @ CRLF @ CRLF @ join CRLF parts))
         else if truthy (mail_html input) then
           io_return (join CRLF (headers @
               [''Content-Type: text/html; charset='' @ [CHR 0x22] @ ''utf-8'' @ [CHR 0x22]])
             @ CRLF @ CRLF @ the (mail_html input))
         else
           io_return (join CRLF (headers @
               [''Content-Type: text/plain; charset='' @ [CHR 0x22] @ ''utf-8'' @ [CHR 0x22]])
             @ CRLF @ CRLF @ (case mail_text input of None \<Rightarrow> '''' | Some t \<Rightarrow> t)))"

section \<open>The session (smtp-send-mail)\<close>

record MailerConfig =
  host :: string
  port :: int
  secure :: "bool option"
  helo :: "string option"
  auth :: "Credentials option"

record SendMailResult =
  messageId :: string

text \<open>
  \<^verbatim>\<open>
  for (const recipient of input.mail.to) {
    await writeSmtpCommand({ writer, encoder, command: `RCPT TO:<${recipient}>` });
    const rcpt = await readSmtpResponse({ reader, decoder });
    assertSmtpOk({ response: rcpt, expectedCodes: [250, 251], context: "RCPT TO" });
  }
  \<close>
\<close>

fun rcptLoop :: "sock \<Rightarrow> string list \<Rightarrow> unit io" where
  "rcptLoop s [] = io_return ()"
| "rcptLoop s (recipient # rest) =
     io_bind (writeSmtpCommand s (''RCPT TO:<'' @ recipient @ ''>'')) (\<lambda>_.
     io_bind (readReply s) (\<lambda>rcpt.
     io_bind (assertSmtpOk rcpt [250, 251] ''RCPT TO'') (\<lambda>_.
     rcptLoop s rest)))"

text \<open>
  From MAIL FROM to the return. The source has this block twice, once inside the STARTTLS
  branch on \<^verbatim>\<open>tlsReader\<close>, \<^verbatim>\<open>tlsWriter\<close> and \<^verbatim>\<open>secureSocket\<close>, once after it on \<^verbatim>\<open>reader\<close>,
  \<^verbatim>\<open>writer\<close> and \<^verbatim>\<open>socket\<close>; the two copies differ in nothing else, and \<open>s\<close> is the socket
  they work on. The reply to QUIT is read and not looked at; the socket is closed after
  it, on this path only.
\<close>

definition sendEnvelope :: "sock \<Rightarrow> Mail \<Rightarrow> SendMailResult io" where
  "sendEnvelope s mail =
     io_bind (writeSmtpCommand s (''MAIL FROM:<'' @ mail_from mail @ ''>'')) (\<lambda>_.
     io_bind (readReply s) (\<lambda>mailFrom.
     io_bind (assertSmtpOk mailFrom [250] ''MAIL FROM'') (\<lambda>_.
     io_bind (rcptLoop s (mail_to mail)) (\<lambda>_.
     io_bind (writeSmtpCommand s ''DATA'') (\<lambda>_.
     io_bind (readReply s) (\<lambda>data.
     io_bind (assertSmtpOk data [354] ''DATA'') (\<lambda>_.
     io_bind (createMessage mail) (\<lambda>body.
     let dotStuffed = dotStuff body in
     io_bind (writer_write s (dotStuffed @ CRLF @ ''.'' @ CRLF)) (\<lambda>_.
     io_bind (readReply s) (\<lambda>queued.
     io_bind (assertSmtpOk queued [250] ''DATA end'') (\<lambda>_.
     io_bind (writeSmtpCommand s ''QUIT'') (\<lambda>_.
     io_bind (readReply s) (\<lambda>_.
     io_bind (close s) (\<lambda>_.
     io_bind randomUUID (\<lambda>uuid.
     io_return \<lparr>messageId = uuid\<rparr>)))))))))))))))"

text \<open>
  \<^verbatim>\<open>smtpSendMail(input: { config, mail })\<close>. Port 25 is refused first; then the socket is
  opened, the greeting and the EHLO reply are read, and the STARTTLS branch or the plain
  branch runs. \<^verbatim>\<open>reader.releaseLock()\<close> and \<^verbatim>\<open>writer.releaseLock()\<close> after the upgrade
  leave no event. There is no \<^verbatim>\<open>try\<close> or \<^verbatim>\<open>finally\<close> in the source: an error of any step
  leaves the function at once.
\<close>

definition smtpSendMail :: "MailerConfig \<Rightarrow> Mail \<Rightarrow> SendMailResult io" where
  "smtpSendMail config mail =
     (if port config = 25 then io_throw UnsupportedPort
      else
        let secureTransport = getSmtpSecureTransport (port config) (secure config) in
        io_bind (connect (host config) (port config) secureTransport) (\<lambda>_.
        io_bind (readReply Initial) (\<lambda>greeting.
        io_bind (assertSmtpOk greeting [220] ''Greeting'') (\<lambda>_.
        let heloName = (case helo config of None \<Rightarrow> ''localhost'' | Some h \<Rightarrow> h) in
        io_bind (writeSmtpCommand Initial (''EHLO '' @ heloName)) (\<lambda>_.
        io_bind (readReply Initial) (\<lambda>ehlo.
        io_bind (assertSmtpOk ehlo [250] ''EHLO'') (\<lambda>_.
        let capabilities = parseSmtpCapabilities ehlo in
        if secureTransport = Starttls then
          io_bind (writeSmtpCommand Initial ''STARTTLS'') (\<lambda>_.
          io_bind (readReply Initial) (\<lambda>starttls.
          io_bind (assertSmtpOk starttls [220] ''STARTTLS'') (\<lambda>_.
          io_bind startTls (\<lambda>_.
          io_bind (writeSmtpCommand Upgraded (''EHLO '' @ heloName)) (\<lambda>_.
          io_bind (readReply Upgraded) (\<lambda>tlsEhlo.
          io_bind (assertSmtpOk tlsEhlo [250] ''EHLO (TLS)'') (\<lambda>_.
          let tlsCapabilities = parseSmtpCapabilities tlsEhlo in
          io_bind (case auth config of
                     None \<Rightarrow> io_return ()
                   | Some creds \<Rightarrow> smtpAuth tlsCapabilities creds Upgraded) (\<lambda>_.
          sendEnvelope Upgraded mail))))))))
        else
          io_bind (case auth config of
                     None \<Rightarrow> io_return ()
                   | Some creds \<Rightarrow> smtpAuth capabilities creds Initial) (\<lambda>_.
          sendEnvelope Initial mail))))))))"

section \<open>The public entry point (client, validate-mailer-config, validate-send-mail-input)\<close>

text \<open>\<^verbatim>\<open>to: string | string[]\<close>\<close>

datatype recipients = One string | Many "string list"

record SendMailInput =
  in_from :: string
  in_to :: recipients
  in_subject :: string
  in_text :: "string option"
  in_html :: "string option"

text \<open>
  \<^verbatim>\<open>
  const mailerAuthSchema = z.object({ user: z.string().min(1), pass: z.string().min(1) });
  const mailerConfigSchema = z.object({
    host: z.string().min(1),
    port: z.number().int().positive(),
    secure: z.boolean().optional(),
    helo: z.string().min(1).optional(),
    auth: mailerAuthSchema.optional(),
  });
  \<close>
  \<^verbatim>\<open>safeParse\<close> succeeds with the input when every field passes, and the function throws
  otherwise.
\<close>

definition validateMailerConfig :: "MailerConfig \<Rightarrow> error + MailerConfig" where
  "validateMailerConfig input =
     (if 1 \<le> length (host input)
         \<and> 0 < port input
         \<and> (case helo input of None \<Rightarrow> True | Some h \<Rightarrow> 1 \<le> length h)
         \<and> (case auth input of
               None \<Rightarrow> True
             | Some a \<Rightarrow> 1 \<le> length (user a) \<and> 1 \<le> length (pass a))
      then Inr input else Inl ValidationError)"

text \<open>
  \<^verbatim>\<open>
  const sendMailInputSchema = z.object({
    from: z.string().min(1),
    to: z.union([z.string().min(1), z.array(z.string().min(1)).min(1)]),
    subject: z.string().min(1),
    text: z.string().min(1).optional(),
    html: z.string().min(1).optional(),
  });
  \<close>
\<close>

definition validateSendMailInput :: "SendMailInput \<Rightarrow> error + SendMailInput" where
  "validateSendMailInput input =
     (if 1 \<le> length (in_from input)
         \<and> (case in_to input of
               One a \<Rightarrow> 1 \<le> length a
             | Many as \<Rightarrow> 1 \<le> length as \<and> list_all (\<lambda>a. 1 \<le> length a) as)
         \<and> 1 \<le> length (in_subject input)
         \<and> (case in_text input of None \<Rightarrow> True | Some t \<Rightarrow> 1 \<le> length t)
         \<and> (case in_html input of None \<Rightarrow> True | Some h \<Rightarrow> 1 \<le> length h)
      then Inr input else Inl ValidationError)"

text \<open>
  \<^verbatim>\<open>
  send: async (input) => {
    const parsed = validateSendMailInput(input);
    const to = Array.isArray(parsed.to) ? parsed.to : [parsed.to];
    const result = await smtpSendMail({ config: parsedConfig, mail: { from: parsed.from, to, ... } });
    return { messageId: result.messageId };
  }
  \<close>
\<close>

definition send :: "MailerConfig \<Rightarrow> SendMailInput \<Rightarrow> SendMailResult io" where
  "send parsedConfig input =
     (case validateSendMailInput input of
        Inl e \<Rightarrow> io_throw e
      | Inr parsed \<Rightarrow>
          let to = (case in_to parsed of Many as \<Rightarrow> as | One a \<Rightarrow> [a]) in
          io_bind (smtpSendMail parsedConfig
                     \<lparr>mail_from = in_from parsed, mail_to = to, subject = in_subject parsed,
                      mail_text = in_text parsed, mail_html = in_html parsed\<rparr>) (\<lambda>result.
          io_return \<lparr>messageId = messageId result\<rparr>))"

text \<open>
  \<^verbatim>\<open>createMailer(config)\<close>: the configuration is validated once, and the mailer returned is
  its \<^verbatim>\<open>send\<close> method.
\<close>

definition createMailer :: "MailerConfig \<Rightarrow> error + (SendMailInput \<Rightarrow> SendMailResult io)" where
  "createMailer config =
     (case validateMailerConfig config of
        Inl e \<Rightarrow> Inl e
      | Inr parsedConfig \<Rightarrow> Inr (send parsedConfig))"

section \<open>The state machine of the specification\<close>

text \<open>
  These definitions follow the words of the specification, not the source; the session of
  the source is compared with them below. A stage sends its request, reads one reply and
  fails with \<open>ProtocolError\<close>, tagged with the name of the stage, the code received and all
  the reply lines, exactly when the code is not among the expected ones; otherwise it
  yields the reply.
\<close>

definition spec_stage :: "unit io \<Rightarrow> sock \<Rightarrow> string \<Rightarrow> rat list \<Rightarrow> SmtpResponse io" where
  "spec_stage request s name expected =
     io_bind request (\<lambda>_.
     io_bind (readReply s) (\<lambda>reply.
       if code reply \<in> set expected then io_return reply
       else io_throw (ProtocolError name (code reply) (lines reply))))"

text \<open>The last stage (QUIT): the reply is read, and any code is accepted.\<close>

definition spec_final_stage :: "unit io \<Rightarrow> sock \<Rightarrow> unit io" where
  "spec_final_stage request s =
     io_bind request (\<lambda>_. io_bind (readReply s) (\<lambda>_. io_return ()))"

text \<open>One RCPT TO stage for each recipient, in order, each expecting 250 or 251.\<close>

fun spec_rcpt_stages :: "sock \<Rightarrow> string list \<Rightarrow> unit io" where
  "spec_rcpt_stages s [] = io_return ()"
| "spec_rcpt_stages s (recipient # rest) =
     io_bind (spec_stage (writeSmtpCommand s (''RCPT TO:<'' @ recipient @ ''>'')) s
                ''RCPT TO'' [250, 251]) (\<lambda>_.
     spec_rcpt_stages s rest)"

text \<open>
  Connected, then greeting (220), EHLO (250), in STARTTLS mode the STARTTLS command (220),
  the upgrade and EHLO again (250) on the upgraded socket, whose capabilities replace the
  earlier ones; then authentication when there are credentials, MAIL FROM (250), the
  RCPT TO stages, DATA (354), the stuffed body with its terminator (250), QUIT, close, and
  the generated identifier.
\<close>

definition spec_session :: "MailerConfig \<Rightarrow> Mail \<Rightarrow> SendMailResult io" where
  "spec_session config mail =
     (if port config = 25 then io_throw UnsupportedPort
      else
        let mode = getSmtpSecureTransport (port config) (secure config);
            ehloCommand = ''EHLO '' @ (case helo config of None \<Rightarrow> ''localhost'' | Some h \<Rightarrow> h)
        in
        io_bind (connect (host config) (port config) mode) (\<lambda>_.
        io_bind (spec_stage (io_return ()) Initial ''Greeting'' [220]) (\<lambda>_.
        io_bind (spec_stage (writeSmtpCommand Initial ehloCommand) Initial ''EHLO'' [250]) (\<lambda>ehlo.
        io_bind
          (if mode = Starttls then
             io_bind (spec_stage (writeSmtpCommand Initial ''STARTTLS'') Initial
                        ''STARTTLS'' [220]) (\<lambda>_.
             io_bind startTls (\<lambda>_.
             io_bind (spec_stage (writeSmtpCommand Upgraded ehloCommand) Upgraded
                        ''EHLO (TLS)'' [250]) (\<lambda>tlsEhlo.
             io_return (Upgraded, parseSmtpCapabilities tlsEhlo))))
           else io_return (Initial, parseSmtpCapabilities ehlo)) (\<lambda>(s, capabilities).
        io_bind (case auth config of
                   None \<Rightarrow> io_return ()
                 | Some creds \<Rightarrow> smtpAuth capabilities creds s) (\<lambda>_.
        io_bind (spec_stage (writeSmtpCommand s (''MAIL FROM:<'' @ mail_from mail @ ''>'')) s
                   ''MAIL FROM'' [250]) (\<lambda>_.
        io_bind (spec_rcpt_stages s (mail_to mail)) (\<lambda>_.
        io_bind (spec_stage (writeSmtpCommand s ''DATA'') s ''DATA'' [354]) (\<lambda>_.
        io_bind (spec_stage
                   (io_bind (createMessage mail) (\<lambda>body.
                      writer_write s (dotStuff body @ CRLF @ ''.'' @ CRLF)))
                   s ''DATA end'' [250]) (\<lambda>_.
        io_bind (spec_final_stage (writeSmtpCommand s ''QUIT'') s) (\<lambda>_.
        io_bind (close s) (\<lambda>_.
        io_bind randomUUID (\<lambda>uuid.
        io_return \<lparr>messageId = uuid\<rparr>)))))))))))))"

section \<open>What a computation does to the sockets\<close>

text \<open>
  Three properties of a computation, read off the trace: it closes no socket whatever
  its outcome; it closes no socket when it ends in an error; and when it returns a value
  the last thing it did to the outside was to close a socket.
\<close>

definition never_closes :: "'a io \<Rightarrow> bool" where
  "never_closes m \<longleftrightarrow>
     (\<forall>w s. Close s \<in> set (trace (snd (m w))) \<longrightarrow> Close s \<in> set (trace w))"

definition fails_unclosed :: "'a io \<Rightarrow> bool" where
  "fails_unclosed m \<longleftrightarrow>
     (\<forall>w e s. fst (m w) = Inl e \<longrightarrow> Close s \<in> set (trace (snd (m w)))
        \<longrightarrow> Close s \<in> set (trace w))"

definition ends_closed :: "'a io \<Rightarrow> bool" where
  "ends_closed m \<longleftrightarrow>
     (\<forall>w x. fst (m w) = Inr x \<longrightarrow>
        trace (snd (m w)) \<noteq> [] \<and> (\<exists>s. last (trace (snd (m w))) = Close s))"

section \<open>Example inputs\<close>

text \<open>The document of the test of the repository (\<^verbatim>\<open>dotStuff\<close>).\<close>

definition doc1 :: string where
  "doc1 = ''Hello'' @ CRLF @ ''.World'' @ CRLF @ ''..Two'' @ CRLF @ ''End''"

text \<open>
  A configuration on port 465 with credentials, one on port 25, and a mail to two
  recipients whose text has lines that begin with a dot.
\<close>

definition cfg465 :: MailerConfig where
  "cfg465 = \<lparr>host = ''smtp.example.com'', port = 465, secure = None, helo = None,
              auth = Some \<lparr>user = units ''user'', pass = units ''pass''\<rparr>\<rparr>"

definition cfg25 :: MailerConfig where
  "cfg25 = \<lparr>host = ''smtp.example.com'', port = 25, secure = Some True, helo = None,
             auth = Some \<lparr>user = units ''user'', pass = units ''pass''\<rparr>\<rparr>"

definition mail1 :: Mail where
  "mail1 = \<lparr>mail_from = ''a@example.com'', mail_to = [''b@example.com'', ''c@example.com''],
             subject = ''Hi'', mail_text = Some (''.hello'' @ CRLF @ ''.''), mail_html = None\<rparr>"

text \<open>A world in which nothing has happened and the server never sends anything.\<close>

definition quiet :: world where
  "quiet = \<lparr>initial_in = [], upgraded_in = [], uuid_gen = (\<lambda>n. ''id''), uuid_count = 0,
             trace = []\<rparr>"

text \<open>
  A server that accepts the session up to the first recipient and answers 550 to the
  second RCPT TO, and one that accepts the whole session.
\<close>

definition server_rejects_rcpt :: world where
  "server_rejects_rcpt =
     \<lparr>initial_in =
        [''220 mx ready'' @ CRLF,
         ''250-mx'' @ CRLF @ ''250-AUTH PLAIN LOGIN'' @ CRLF @ ''250 OK'' @ CRLF,
         ''235 ok'' @ CRLF,
         ''250 sender ok'' @ CRLF,
         ''250 rcpt ok'' @ CRLF,
         ''550 no such user'' @ CRLF],
      upgraded_in = [], uuid_gen = (\<lambda>n. ''id''), uuid_count = 0, trace = []\<rparr>"

definition server_accepts :: world where
  "server_accepts =
     \<lparr>initial_in =
        [''220 mx ready'' @ CRLF,
         ''250-mx'' @ CRLF @ ''250-AUTH PLAIN LOGIN'' @ CRLF @ ''250 OK'' @ CRLF,
         ''235 ok'' @ CRLF,
         ''250 sender ok'' @ CRLF,
         ''250 rcpt ok'' @ CRLF,
         ''251 rcpt forwarded'' @ CRLF,
         ''354 go ahead'' @ CRLF,
         ''250 queued'' @ CRLF,
         ''221 bye'' @ CRLF],
      upgraded_in = [], uuid_gen = (\<lambda>n. ''id''), uuid_count = 0, trace = []\<rparr>"






text \<open>An input of the public \<^verbatim>\<open>send\<close> with an empty subject.\<close>

definition input_empty_subject :: SendMailInput where
  "input_empty_subject =
     \<lparr>in_from = ''a@example.com'', in_to = One ''b@example.com'', in_subject = '''',
      in_text = Some ''hello'', in_html = None\<rparr>"

text \<open>A server whose next reply is 550.\<close>

definition server_says_550 :: world where
  "server_says_550 =
     \<lparr>initial_in = [''550 no such user'' @ CRLF], upgraded_in = [], uuid_gen = (\<lambda>n. ''id''),
      uuid_count = 0, trace = []\<rparr>"

section \<open>Properties of the transport mode selector\<close>

text \<open>
  Claim C7. The selector is a function of the port and the explicit flag alone, with this
  policy in priority order: port 465 gives implicit TLS whatever the flag; port 587 gives
  STARTTLS whatever the flag; on any other port an explicit true gives implicit TLS, an
  explicit false gives plain, and an unset flag gives plain.
\<close>

theorem getSmtpSecureTransport_policy:
  "getSmtpSecureTransport 465 sec = On
   \<and> getSmtpSecureTransport 587 sec = Starttls
   \<and> (p \<noteq> 465 \<and> p \<noteq> 587 \<longrightarrow>
        getSmtpSecureTransport p (Some True) = On
        \<and> getSmtpSecureTransport p (Some False) = Off
        \<and> getSmtpSecureTransport p None = Off)"
  by (simp add: getSmtpSecureTransport_def)

theorem getSmtpSecureTransport_policy_witness:
  "(2525::int) \<noteq> 465 \<and> (2525::int) \<noteq> 587
   \<and> getSmtpSecureTransport 465 None = On
   \<and> getSmtpSecureTransport 587 None = Starttls
   \<and> getSmtpSecureTransport 2525 (Some True) = On
   \<and> getSmtpSecureTransport 2525 (Some False) = Off
   \<and> getSmtpSecureTransport 2525 None = Off"
  using getSmtpSecureTransport_policy [of None 2525] by simp

section \<open>Properties of dot-stuffing\<close>

text \<open>
  Splitting never yields an empty list, joining undoes splitting, and splitting undoes
  joining when no line holds a CRLF of its own, which is the case for the lines of a split
  and stays so when a dot is put in front.
\<close>

lemma cons_first_Cons [simp]: "cons_first c (l # ls) = (c # l) # ls"
  by (simp add: cons_first_def)

lemma split_CRLF_nonempty: "split_CRLF s \<noteq> []"
  by (induction s rule: split_CRLF.induct) (auto simp: cons_first_def split: list.splits)

lemma split_CRLF_obtain: obtains l ls where "split_CRLF s = l # ls"
  using split_CRLF_nonempty[of s] by (cases "split_CRLF s") auto

lemma join_cons_first:
  "ls \<noteq> [] \<Longrightarrow> join sep (cons_first c ls) = c # join sep ls"
  by (cases ls; cases "tl ls") auto

lemma join_split_CRLF: "join CRLF (split_CRLF s) = s"
proof (induction s rule: split_CRLF.induct)
  case (3 c d cs)
  show ?case
  proof (cases "c = CR \<and> d = LF")
    case True
    obtain l ls where "split_CRLF cs = l # ls" by (rule split_CRLF_obtain)
    with True 3 show ?thesis by simp
  next
    case False
    with 3 show ?thesis
      by (auto simp: join_cons_first split_CRLF_nonempty)
  qed
qed simp_all

lemma split_CRLF_append:
  "split_CRLF l = [l] \<Longrightarrow> split_CRLF (l @ CRLF @ r) = l # split_CRLF r"
proof (induction l rule: split_CRLF.induct)
  case 1
  show ?case by simp
next
  case (2 c)
  show ?case by simp
next
  case (3 c d cs)
  obtain l ls where sp: "split_CRLF (d # cs) = l # ls" by (rule split_CRLF_obtain)
  from 3(3) have ncrlf: "\<not> (c = CR \<and> d = LF)"
    by (auto split: if_splits)
  with 3(3) sp have "l = d # cs" "ls = []" by auto
  with sp have "split_CRLF (d # cs) = [d # cs]" by simp
  with 3(2) ncrlf have "split_CRLF ((d # cs) @ CRLF @ r) = (d # cs) # split_CRLF r" by blast
  with ncrlf show ?case by auto
qed

lemma split_CRLF_lines_free: "l \<in> set (split_CRLF s) \<Longrightarrow> split_CRLF l = [l]"
proof (induction s arbitrary: l rule: split_CRLF.induct)
  case 1
  then show ?case by simp
next
  case (2 c)
  then show ?case by simp
next
  case (3 c d cs)
  show ?case
  proof (cases "c = CR \<and> d = LF")
    case True
    with 3 show ?thesis by auto
  next
    case False
    obtain k ks where sp: "split_CRLF (d # cs) = k # ks" by (rule split_CRLF_obtain)
    with False 3(3) have "l = c # k \<or> l \<in> set ks" by auto
    then show ?thesis
    proof
      assume l: "l = c # k"
      have k: "split_CRLF k = [k]" using 3(2)[of k] False sp by auto
      have "k = [] \<or> (\<exists>e es. k = e # es)" by (cases k) auto
      then show ?thesis
      proof
        assume "k = []" with l show ?thesis by simp
      next
        assume "\<exists>e es. k = e # es"
        then obtain e es where kk: "k = e # es" by blast
        have "hd (d # cs) = e" using sp kk
          by (cases cs) (auto simp: cons_first_def split: if_splits list.splits)
        then have "e = d" by simp
        with l kk k False show ?thesis by auto
      qed
    next
      assume "l \<in> set ks"
      with 3(2)[of l] False sp show ?thesis by auto
    qed
  qed
qed

lemma split_CRLF_join:
  "ls \<noteq> [] \<Longrightarrow> (\<forall>l\<in>set ls. split_CRLF l = [l]) \<Longrightarrow> split_CRLF (join CRLF ls) = ls"
proof (induction CRLF ls rule: join.induct)
  case 1
  then show ?case by simp
next
  case (2 l)
  then show ?case by simp
next
  case (3 l m ls)
  then have "split_CRLF (l @ CRLF @ join CRLF (m # ls)) = l # split_CRLF (join CRLF (m # ls))"
    using split_CRLF_append[of l "join CRLF (m # ls)"] by simp
  with 3 show ?case by simp
qed

lemma split_CRLF_dot: "split_CRLF l = [l] \<Longrightarrow> split_CRLF (CHR ''.'' # l) = [CHR ''.'' # l]"
  by (cases l) auto

lemma split_CRLF_stuffLine: "split_CRLF l = [l] \<Longrightarrow> split_CRLF (stuffLine l) = [stuffLine l]"
  by (simp add: stuffLine_def split_CRLF_dot)

lemma split_CRLF_dotStuff: "split_CRLF (dotStuff m) = map stuffLine (split_CRLF m)"
  unfolding dotStuff_def
  by (rule split_CRLF_join)
     (auto simp: split_CRLF_nonempty split_CRLF_stuffLine split_CRLF_lines_free)

lemma stuffLine_twice:
  "stuffLine (stuffLine l) = (if startsWith l ''.'' then ''..'' @ l else l)"
  by (simp add: stuffLine_def startsWith_def)

lemma dotStuff_twice_lines:
  "split_CRLF (dotStuff (dotStuff m)) =
     map (\<lambda>l. if startsWith l ''.'' then ''..'' @ l else l) (split_CRLF m)"
  by (simp add: split_CRLF_dotStuff stuffLine_twice cong: map_cong)

lemma dotStuff_not_idempotent:
  assumes "l \<in> set (split_CRLF m)" "startsWith l ''.''"
  shows "dotStuff (dotStuff m) \<noteq> dotStuff m"
proof
  assume "dotStuff (dotStuff m) = dotStuff m"
  then have "split_CRLF (dotStuff (dotStuff m)) = split_CRLF (dotStuff m)" by simp
  then have "map (stuffLine \<circ> stuffLine) (split_CRLF m) = map stuffLine (split_CRLF m)"
    by (simp add: split_CRLF_dotStuff)
  with assms(1) have "stuffLine (stuffLine l) = stuffLine l" by auto
  with assms(2) show False by (simp add: stuffLine_def startsWith_def)
qed

text \<open>
  Claim C5. For every document, the lines of the dot-stuffed document are the lines of the
  document (split on CRLF), each line that begins with a dot prefixed by one more dot and
  every other line unchanged, and the result is these lines joined with CRLF; so a line
  \<^verbatim>\<open>.\<close> becomes \<^verbatim>\<open>..\<close> and a line \<^verbatim>\<open>..Two\<close> becomes \<^verbatim>\<open>...Two\<close>. Stuffing twice puts
  two dots in front of every line that begins with a dot, so the function is not
  idempotent on any document with such a line.
\<close>

theorem dotStuff_lines:
  "split_CRLF (dotStuff m) =
     map (\<lambda>line. if startsWith line ''.'' then CHR ''.'' # line else line) (split_CRLF m)
   \<and> dotStuff m = join CRLF (split_CRLF (dotStuff m))
   \<and> dotStuff ''.'' = ''..''
   \<and> dotStuff ''..Two'' = ''...Two''
   \<and> split_CRLF (dotStuff (dotStuff m)) =
     map (\<lambda>line. if startsWith line ''.'' then ''..'' @ line else line) (split_CRLF m)
   \<and> ((\<exists>line\<in>set (split_CRLF m). startsWith line ''.'') \<longrightarrow> dotStuff (dotStuff m) \<noteq> dotStuff m)"
proof -
  have a: "split_CRLF (dotStuff m) =
     map (\<lambda>line. if startsWith line ''.'' then CHR ''.'' # line else line) (split_CRLF m)"
    using split_CRLF_dotStuff[of m] by (simp add: stuffLine_def cong: map_cong)
  have b: "dotStuff m = join CRLF (split_CRLF (dotStuff m))"
    by (simp add: join_split_CRLF)
  have c: "dotStuff ''.'' = ''..''" "dotStuff ''..Two'' = ''...Two''"
    by (simp_all add: dotStuff_def stuffLine_def startsWith_def)
  have d: "(\<exists>line\<in>set (split_CRLF m). startsWith line ''.'') \<longrightarrow> dotStuff (dotStuff m) \<noteq> dotStuff m"
    using dotStuff_not_idempotent by blast
  from a b c d dotStuff_twice_lines show ?thesis by blast
qed

lemma doc1_eval:
  "split_CRLF doc1 = [''Hello'', ''.World'', ''..Two'', ''End'']"
  "dotStuff doc1 = ''Hello'' @ CRLF @ ''..World'' @ CRLF @ ''...Two'' @ CRLF @ ''End''"
  "dotStuff (dotStuff doc1) = ''Hello'' @ CRLF @ ''...World'' @ CRLF @ ''....Two'' @ CRLF @ ''End''"
  by (simp_all add: doc1_def dotStuff_def stuffLine_def startsWith_def)

theorem dotStuff_lines_witness:
  "(\<exists>line\<in>set (split_CRLF doc1). startsWith line ''.'')
   \<and> dotStuff doc1 = ''Hello'' @ CRLF @ ''..World'' @ CRLF @ ''...Two'' @ CRLF @ ''End''
   \<and> dotStuff (dotStuff doc1) \<noteq> dotStuff doc1"
  using dotStuff_lines [of doc1] by (simp add: doc1_eval startsWith_def)
section \<open>Properties of the response reader\<close>

subsection \<open>How much of the stream a read consumes\<close>

text \<open>
  What is left unread is always a suffix of the chunks given. A call that reads no chunk
  found its LF in the buffer it was given; chunks that are not reached do not matter; and
  text added to the end of the last chunk read ends up at the end of the buffer.
\<close>

lemma fillBuffer_suffix:
  "fillBuffer b cs = (r, cs') \<Longrightarrow> \<exists>pre. cs = pre @ cs'"
proof (induction cs arbitrary: b)
  case Nil
  then show ?case by (auto split: if_splits)
next
  case (Cons c cs)
  show ?case
  proof (cases "LF \<in> set b")
    case True
    with Cons.prems show ?thesis by auto
  next
    case False
    with Cons.prems have "fillBuffer (b @ c) cs = (r, cs')" by simp
    from Cons.IH[OF this] obtain pre where "cs = pre @ cs'" by blast
    then have "c # cs = (c # pre) @ cs'" by simp
    then show ?thesis by blast
  qed
qed

lemma fillBuffer_has_LF: "fillBuffer b cs = (Inr b', cs') \<Longrightarrow> LF \<in> set b'"
  by (induction cs arbitrary: b) (auto split: if_splits)

lemma fillBuffer_ready: "LF \<in> set b \<Longrightarrow> fillBuffer b cs = (Inr b, cs)"
  by (cases cs) auto

lemma fillBuffer_nothing_read:
  assumes "fillBuffer b cs = (Inr b', cs)"
  shows "b' = b \<and> LF \<in> set b"
proof (cases cs)
  case Nil
  with assms show ?thesis by (auto split: if_splits)
next
  case (Cons c cs1)
  show ?thesis
  proof (cases "LF \<in> set b")
    case True
    with assms Cons show ?thesis by auto
  next
    case False
    with assms Cons have "fillBuffer (b @ c) cs1 = (Inr b', c # cs1)" by simp
    from fillBuffer_suffix[OF this] obtain pre where "cs1 = pre @ c # cs1" by blast
    then have "length cs1 = length (pre @ c # cs1)" by simp
    then show ?thesis by simp
  qed
qed

lemma fillBuffer_unreached:
  "fillBuffer b (p @ q) = (Inr b', p1 @ q) \<Longrightarrow> fillBuffer b (p @ q') = (Inr b', p1 @ q')"
proof (induction p arbitrary: b)
  case Nil
  then have "fillBuffer b q = (Inr b', p1 @ q)" by simp
  from fillBuffer_suffix[OF this] obtain pre where "q = pre @ p1 @ q" by blast
  then have "length q = length (pre @ p1 @ q)" by simp
  then have p1: "p1 = []" by simp
  with Nil have "fillBuffer b q = (Inr b', q)" by simp
  from fillBuffer_nothing_read[OF this] have "b' = b" "LF \<in> set b" by auto
  with p1 show ?case by (simp add: fillBuffer_ready)
next
  case (Cons a p)
  show ?case
  proof (cases "LF \<in> set b")
    case True
    with Cons.prems show ?thesis by auto
  next
    case False
    with Cons.prems have "fillBuffer (b @ a) (p @ q) = (Inr b', p1 @ q)" by simp
    from Cons.IH[OF this] False show ?thesis by simp
  qed
qed

lemma fillBuffer_excess:
  "fillBuffer b (pre @ c # rest) = (Inr b', rest) \<Longrightarrow>
   fillBuffer b (pre @ (c @ x) # rest) = (Inr (b' @ x), rest)"
proof (induction pre arbitrary: b)
  case Nil
  then have f: "fillBuffer b (c # rest) = (Inr b', rest)" by simp
  have nlf: "LF \<notin> set b"
  proof
    assume "LF \<in> set b"
    with f have "c # rest = rest" by simp
    then have "length (c # rest) = length rest" by simp
    then show False by simp
  qed
  with f have "fillBuffer (b @ c) rest = (Inr b', rest)" by simp
  from fillBuffer_nothing_read[OF this] have "b' = b @ c" "LF \<in> set (b @ c)" by auto
  then have "fillBuffer (b @ c @ x) rest = (Inr (b' @ x), rest)"
    using fillBuffer_ready[of "b @ c @ x" rest] by auto
  with nlf show ?case by simp
next
  case (Cons a pre)
  have nlf: "LF \<notin> set b"
  proof
    assume "LF \<in> set b"
    with Cons.prems have "a # pre @ c # rest = rest" by simp
    then have "length (a # pre @ c # rest) = length rest" by simp
    then show False by simp
  qed
  with Cons.prems have "fillBuffer (b @ a) (pre @ c # rest) = (Inr b', rest)" by simp
  from Cons.IH[OF this] nlf show ?case by simp
qed

lemma line_of_append:
  assumes "LF \<in> set b"
  shows "takeWhile (\<lambda>c. c \<noteq> LF) (b @ x) = takeWhile (\<lambda>c. c \<noteq> LF) b"
    and "tl (dropWhile (\<lambda>c. c \<noteq> LF) (b @ x)) = tl (dropWhile (\<lambda>c. c \<noteq> LF) b) @ x"
proof -
  from assms have ex: "\<exists>c\<in>set b. \<not> c \<noteq> LF" by auto
  then show "takeWhile (\<lambda>c. c \<noteq> LF) (b @ x) = takeWhile (\<lambda>c. c \<noteq> LF) b"
    by (simp add: takeWhile_append1)
  from assms have ne: "dropWhile (\<lambda>c. c \<noteq> LF) b \<noteq> []"
    by (simp add: dropWhile_eq_Nil_conv)
  from ex have "dropWhile (\<lambda>c. c \<noteq> LF) (b @ x) = dropWhile (\<lambda>c. c \<noteq> LF) b @ x"
    by (auto simp: dropWhile_append1)
  with ne show "tl (dropWhile (\<lambda>c. c \<noteq> LF) (b @ x)) = tl (dropWhile (\<lambda>c. c \<noteq> LF) b) @ x"
    by simp
qed

lemma readLine_suffix: "readLine b cs = (r, cs') \<Longrightarrow> \<exists>pre. cs = pre @ cs'"
  by (auto simp: readLine_def split: prod.splits sum.splits dest: fillBuffer_suffix)

lemma readLine_nothing_read:
  assumes "readLine b cs = (Inr (l, b'), cs)"
  shows "readLine (b @ x) cs = (Inr (l, b' @ x), cs)"
proof -
  from assms obtain fb where f: "fillBuffer b cs = (Inr fb, cs)"
    and l: "l = stripLineEnd (takeWhile (\<lambda>c. c \<noteq> LF) fb)"
    and b': "b' = tl (dropWhile (\<lambda>c. c \<noteq> LF) fb)"
    by (auto simp: readLine_def split: prod.splits sum.splits)
  from fillBuffer_nothing_read[OF f] have fb: "fb = b" and lf: "LF \<in> set b" by auto
  then have "fillBuffer (b @ x) cs = (Inr (b @ x), cs)" by (simp add: fillBuffer_ready)
  with l b' fb lf show ?thesis by (simp add: readLine_def line_of_append)
qed

lemma readLine_unreached:
  "readLine b (p @ q) = (Inr lb, p1 @ q) \<Longrightarrow> readLine b (p @ q') = (Inr lb, p1 @ q')"
  by (auto simp: readLine_def split: prod.splits sum.splits dest: fillBuffer_unreached[where q'=q'])

lemma readLine_excess:
  assumes "readLine b (pre @ c # rest) = (Inr (l, b'), rest)"
  shows "readLine b (pre @ (c @ x) # rest) = (Inr (l, b' @ x), rest)"
proof -
  from assms obtain fb where f: "fillBuffer b (pre @ c # rest) = (Inr fb, rest)"
    and l: "l = stripLineEnd (takeWhile (\<lambda>c. c \<noteq> LF) fb)"
    and b': "b' = tl (dropWhile (\<lambda>c. c \<noteq> LF) fb)"
    by (auto simp: readLine_def split: prod.splits sum.splits)
  from fillBuffer_has_LF[OF f] have lf: "LF \<in> set fb" .
  from fillBuffer_excess[OF f] have "fillBuffer b (pre @ (c @ x) # rest) = (Inr (fb @ x), rest)" .
  with l b' lf show ?thesis by (simp add: readLine_def line_of_append)
qed

lemma readMore_step:
  "readLine b cs = (Inr (l, b1), cs1) \<Longrightarrow>
   readMore d ls b cs =
     (if startsWith l (d @ '' '') then (Inr (ls @ [l]), cs1) else readMore d (ls @ [l]) b1 cs1)"
  by (subst readMore.simps) simp

lemma readMore_fail: "readLine b cs = (Inl e, cs1) \<Longrightarrow> readMore d ls b cs = (Inl e, cs1)"
  by (subst readMore.simps) simp

lemma readMore_suffix: "readMore d ls b cs = (r, cs') \<Longrightarrow> \<exists>pre. cs = pre @ cs'"
proof (induction d ls b cs rule: readMore.induct)
  case (1 d ls b cs)
  obtain r1 cs1 where rl: "readLine b cs = (r1, cs1)" by (cases "readLine b cs")
  from readLine_suffix[OF rl] obtain u where u: "cs = u @ cs1" by blast
  show ?case
  proof (cases r1)
    case (Inl e)
    with rl "1.prems" u show ?thesis by (auto simp: readMore_fail)
  next
    case (Inr lb)
    obtain l b1 where lb: "lb = (l, b1)" by (cases lb)
    show ?thesis
    proof (cases "startsWith l (d @ '' '')")
      case True
      with rl Inr lb "1.prems" u show ?thesis by (auto simp: readMore_step)
    next
      case False
      with rl Inr lb "1.prems" have "readMore d (ls @ [l]) b1 cs1 = (r, cs')"
        by (simp add: readMore_step)
      moreover have rl': "(Inr (l, b1), cs1) = readLine b cs" using rl Inr lb by simp
      ultimately obtain v where "cs1 = v @ cs'"
        using "1.IH"[OF rl' refl refl False] by blast
      with u have "cs = (u @ v) @ cs'" by simp
      then show ?thesis by blast
    qed
  qed
qed

lemma same_length_suffix: "cs = u @ v @ cs \<Longrightarrow> u = [] \<and> v = []"
proof -
  assume "cs = u @ v @ cs"
  then have "length cs = length (u @ v @ cs)" by simp
  then show ?thesis by simp
qed

lemma readMore_nothing_read:
  "readMore d ls b cs = (Inr ls', cs) \<Longrightarrow> readMore d ls (b @ x) cs = (Inr ls', cs)"
proof (induction d ls b cs arbitrary: x rule: readMore.induct)
  case (1 d ls b cs)
  obtain r1 cs1 where rl: "readLine b cs = (r1, cs1)" by (cases "readLine b cs")
  show ?case
  proof (cases r1)
    case (Inl e)
    with rl "1.prems" show ?thesis by (simp add: readMore_fail)
  next
    case (Inr lb)
    obtain l b1 where lb: "lb = (l, b1)" by (cases lb)
    from rl Inr lb have rl1: "readLine b cs = (Inr (l, b1), cs1)" by simp
    from readLine_suffix[OF rl1] obtain u where u: "cs = u @ cs1" by blast
    have cs1: "cs1 = cs"
    proof (cases "startsWith l (d @ '' '')")
      case True
      with "1.prems" rl1 show ?thesis by (simp add: readMore_step)
    next
      case False
      with "1.prems" rl1 have "readMore d (ls @ [l]) b1 cs1 = (Inr ls', cs)"
        by (simp add: readMore_step)
      from readMore_suffix[OF this] obtain v where "cs1 = v @ cs" by blast
      with u have "cs = u @ v @ cs" by simp
      from same_length_suffix[OF this] \<open>cs1 = v @ cs\<close> show ?thesis by simp
    qed
    with rl1 have rl2: "readLine b cs = (Inr (l, b1), cs)" by simp
    from readLine_nothing_read[OF rl2] have rlx: "readLine (b @ x) cs = (Inr (l, b1 @ x), cs)" .
    show ?thesis
    proof (cases "startsWith l (d @ '' '')")
      case True
      with "1.prems" rl2 rlx show ?thesis by (simp add: readMore_step)
    next
      case False
      with "1.prems" rl2 have rm: "readMore d (ls @ [l]) b1 cs = (Inr ls', cs)"
        by (simp add: readMore_step)
      have rl': "(Inr (l, b1), cs) = readLine b cs" using rl2 by simp
      from "1.IH"[OF rl' refl refl False rm]
      have "readMore d (ls @ [l]) (b1 @ x) cs = (Inr ls', cs)" .
      with False rlx show ?thesis by (simp add: readMore_step)
    qed
  qed
qed

lemma split_at_chunk:
  assumes "pre @ c # rest = u @ cs1" and "cs1 = v @ rest" and "cs1 \<noteq> rest"
  shows "\<exists>p1. cs1 = p1 @ c # rest \<and> pre = u @ p1"
proof -
  from assms(2,3) have "v \<noteq> []" by auto
  then obtain v' z where v: "v = v' @ [z]" by (cases v rule: rev_cases) auto
  from assms(1,2) v have "(pre @ [c]) @ rest = (u @ v' @ [z]) @ rest" by simp
  then have "pre @ [c] = u @ v' @ [z]" by (simp only: append_same_eq)
  then have "pre @ [c] = (u @ v') @ [z]" by simp
  then have "pre = u @ v'" "c = z" by (simp_all only: append1_eq_conv)
  with assms(2) v show ?thesis by simp
qed

lemma readMore_excess:
  "readMore d ls b (pre @ c # rest) = (Inr ls', rest) \<Longrightarrow>
   readMore d ls b (pre @ (c @ x) # rest) = (Inr ls', rest)"
proof (induction d ls b "pre @ c # rest" arbitrary: pre rule: readMore.induct)
  case (1 d ls b)
  let ?cs = "pre @ c # rest"
  obtain r1 cs1 where rl: "readLine b ?cs = (r1, cs1)" by (cases "readLine b ?cs")
  show ?case
  proof (cases r1)
    case (Inl e)
    with rl "1.prems" show ?thesis by (simp add: readMore_fail)
  next
    case (Inr lb)
    obtain l b1 where lb: "lb = (l, b1)" by (cases lb)
    from rl Inr lb have rl1: "readLine b ?cs = (Inr (l, b1), cs1)" by simp
    from readLine_suffix[OF rl1] obtain u where u: "?cs = u @ cs1" by blast
    have rl': "(Inr (l, b1), cs1) = readLine b ?cs" using rl1 by simp
    show ?thesis
    proof (cases "cs1 = rest")
      case True
      with rl1 have "readLine b ?cs = (Inr (l, b1), rest)" by simp
      from readLine_excess[OF this]
      have rlx: "readLine b (pre @ (c @ x) # rest) = (Inr (l, b1 @ x), rest)" .
      show ?thesis
      proof (cases "startsWith l (d @ '' '')")
        case st: True
        with "1.prems" rl1 rlx True show ?thesis
          by (simp add: readMore_step)
      next
        case st: False
        with "1.prems" rl1 True have "readMore d (ls @ [l]) b1 rest = (Inr ls', rest)"
          by (simp add: readMore_step)
        from readMore_nothing_read[OF this]
        have "readMore d (ls @ [l]) (b1 @ x) rest = (Inr ls', rest)" .
        with st rlx show ?thesis by (simp add: readMore_step)
      qed
    next
      case False
      have nst: "\<not> startsWith l (d @ '' '')"
      proof
        assume "startsWith l (d @ '' '')"
        with "1.prems" rl1 have "cs1 = rest" by (simp add: readMore_step)
        with False show False by simp
      qed
      with "1.prems" rl1 have rm: "readMore d (ls @ [l]) b1 cs1 = (Inr ls', rest)"
        by (simp add: readMore_step)
      from readMore_suffix[OF rm] obtain v where v: "cs1 = v @ rest" by blast
      from split_at_chunk[OF u v False] obtain p1 where p1: "cs1 = p1 @ c # rest" "pre = u @ p1"
        by blast
      from rl1 p1 have "readLine b ((u @ p1) @ c # rest) = (Inr (l, b1), p1 @ c # rest)" by simp
      from readLine_unreached[OF this, of "(c @ x) # rest"] p1
      have rlx: "readLine b (pre @ (c @ x) # rest) = (Inr (l, b1), p1 @ (c @ x) # rest)" by simp
      from rm p1 have rm1: "readMore d (ls @ [l]) b1 (p1 @ c # rest) = (Inr ls', rest)" by simp
      have rl'': "(Inr (l, b1), p1 @ c # rest) = readLine b (pre @ c # rest)"
        using rl1 p1(1) by simp
      from "1.hyps"[OF rl'' refl refl nst rm1]
      have "readMore d (ls @ [l]) b1 (p1 @ (c @ x) # rest) = (Inr ls', rest)" .
      with nst rlx show ?thesis by (simp add: readMore_step)
    qed
  qed
qed

lemma readMore_lines:
  "readMore d ls b cs = (Inr ls', cs') \<Longrightarrow>
   \<exists>mid l. ls' = ls @ mid @ [l] \<and> startsWith l (d @ '' '')
     \<and> (\<forall>m\<in>set mid. \<not> startsWith m (d @ '' ''))"
proof (induction d ls b cs rule: readMore.induct)
  case (1 d ls b cs)
  obtain r1 cs1 where rl: "readLine b cs = (r1, cs1)" by (cases "readLine b cs")
  show ?case
  proof (cases r1)
    case (Inl e)
    with rl "1.prems" show ?thesis by (simp add: readMore_fail)
  next
    case (Inr lb)
    obtain l b1 where lb: "lb = (l, b1)" by (cases lb)
    from rl Inr lb have rl1: "readLine b cs = (Inr (l, b1), cs1)" by simp
    have rl': "(Inr (l, b1), cs1) = readLine b cs" using rl1 by simp
    show ?thesis
    proof (cases "startsWith l (d @ '' '')")
      case True
      with "1.prems" rl1 have "ls' = ls @ [] @ [l]"
        by (simp add: readMore_step)
      with True show ?thesis by fastforce
    next
      case False
      with "1.prems" rl1 have "readMore d (ls @ [l]) b1 cs1 = (Inr ls', cs')"
        by (simp add: readMore_step)
      from "1.IH"[OF rl' refl refl False this] obtain mid k where
        k: "ls' = (ls @ [l]) @ mid @ [k]" "startsWith k (d @ '' '')"
           "\<forall>m\<in>set mid. \<not> startsWith m (d @ '' '')" by blast
      from k(1) have "ls' = ls @ (l # mid) @ [k]" by simp
      moreover from k(3) False have "\<forall>m\<in>set (l # mid). \<not> startsWith m (d @ '' '')" by simp
      ultimately show ?thesis using k(2) by blast
    qed
  qed
qed

subsection \<open>The first line of a reply\<close>

text \<open>
  The only error a read can meet after the first line is the end of the stream. So a
  reply is refused as malformed exactly when the first three code units of its first line
  have no finite numeric value or the line is shorter than three code units.
\<close>

lemma fillBuffer_error: "fillBuffer b cs = (Inl e, cs') \<Longrightarrow> e = ConnectionClosed"
  by (induction cs arbitrary: b) (auto split: if_splits)

lemma readLine_error: "readLine b cs = (Inl e, cs') \<Longrightarrow> e = ConnectionClosed"
  by (auto simp: readLine_def split: prod.splits sum.splits dest: fillBuffer_error)

lemma readMore_error: "readMore d ls b cs = (Inl e, cs') \<Longrightarrow> e = ConnectionClosed"
proof (induction d ls b cs rule: readMore.induct)
  case (1 d ls b cs)
  obtain r1 cs1 where rl: "readLine b cs = (r1, cs1)" by (cases "readLine b cs")
  show ?case
  proof (cases r1)
    case (Inl e1)
    with rl "1.prems" readLine_error[of b cs e1 cs1] show ?thesis
      by (simp add: readMore_fail)
  next
    case (Inr lb)
    obtain l b1 where lb: "lb = (l, b1)" by (cases lb)
    from rl Inr lb have rl1: "readLine b cs = (Inr (l, b1), cs1)" by simp
    have rl': "(Inr (l, b1), cs1) = readLine b cs" using rl1 by simp
    show ?thesis
    proof (cases "startsWith l (d @ '' '')")
      case True
      with "1.prems" rl1 show ?thesis by (simp add: readMore_step)
    next
      case False
      with "1.prems" rl1 have "readMore d (ls @ [l]) b1 cs1 = (Inl e, cs')"
        by (simp add: readMore_step)
      from "1.IH"[OF rl' refl refl False this] show ?thesis .
    qed
  qed
qed

lemma readSmtpResponse_malformed_iff:
  assumes "readLine [] cs = (Inr (first, buf), cs1)"
  shows "(\<exists>l. fst (readSmtpResponse cs) = Inl (MalformedResponse l))
     \<longleftrightarrow> finiteNumber (take 3 first) = None \<or> length first < 3"
proof (cases "finiteNumber (take 3 first) = None \<or> length first < 3")
  case True
  with assms show ?thesis
    by (auto simp: readSmtpResponse_def Let_def split: option.splits)
next
  case False
  then obtain n where n: "finiteNumber (take 3 first) = Some n" and len: "length (take 3 first) = 3"
    by auto
  have "\<not> (\<exists>l. fst (readSmtpResponse cs) = Inl (MalformedResponse l))"
  proof (cases "3 < length first \<and> first ! 3 = CHR ''-''")
    case single: False
    with assms n len show ?thesis by (auto simp: readSmtpResponse_def Let_def)
  next
    case multi: True
    obtain r2 cs2 where rm: "readMore (take 3 first) [first] buf cs1 = (r2, cs2)"
      by (cases "readMore (take 3 first) [first] buf cs1")
    show ?thesis
    proof (cases r2)
      case (Inl e)
      with rm readMore_error[of "take 3 first" "[first]" buf cs1 e cs2]
      have "e = ConnectionClosed" by simp
      with assms n len multi rm Inl show ?thesis
        by (auto simp: readSmtpResponse_def Let_def)
    next
      case (Inr ls)
      with assms n len multi rm show ?thesis by (auto simp: readSmtpResponse_def Let_def)
    qed
  qed
  with False show ?thesis by simp
qed

text \<open>
  Claim C3. The claim: reading a reply fails with MalformedResponse exactly when the first
  line does not begin with three ASCII digits, so that a first line beginning with a space
  or a plus sign, or holding an exponent character among its first three characters, is
  rejected. The source tests \<^verbatim>\<open>!Number.isFinite(Number(codeStr)) || codeStr.length !== 3\<close>,
  and \<^verbatim>\<open>Number\<close> accepts white space, a sign and an exponent: each of the three first
  lines below is returned as a reply, with the codes 25, 25 and 20.
\<close>

theorem readSmtpResponse_accepts_non_digit_code:
  "readSmtpResponse ['' 25 hi'' @ CRLF] = (Inr \<lparr>code = 25, lines = ['' 25 hi'']\<rparr>, [])
   \<and> readSmtpResponse [''+25 hi'' @ CRLF] = (Inr \<lparr>code = 25, lines = [''+25 hi'']\<rparr>, [])
   \<and> readSmtpResponse [''2e1 hi'' @ CRLF] = (Inr \<lparr>code = 20, lines = [''2e1 hi'']\<rparr>, [])"
  by code_simp

subsection \<open>The shape of a reply\<close>

text \<open>
  Claim C4, as stated: every Reply returned satisfies the Reply invariant (the last line
  is the three digits of the code followed by a space, every earlier line the same three
  digits followed by a hyphen). It fails on a reply line that is the code alone, which the
  reader returns as a single-line reply, and on a multi-line reply with a line in the
  middle that does not start with the code.
\<close>

theorem reply_invariant_counterexample:
  "readSmtpResponse [''250'' @ CRLF] = (Inr \<lparr>code = 250, lines = [''250'']\<rparr>, [])
   \<and> \<not> reply_invariant \<lparr>code = 250, lines = [''250'']\<rparr>
   \<and> readSmtpResponse [''250-a'' @ CRLF, ''hello'' @ CRLF, ''250 b'' @ CRLF] =
       (Inr \<lparr>code = 250, lines = [''250-a'', ''hello'', ''250 b'']\<rparr>, [])
   \<and> \<not> reply_invariant \<lparr>code = 250, lines = [''250-a'', ''hello'', ''250 b'']\<rparr>"
  by code_simp

text \<open>
  What a read takes from the stream: the chunks it consumes hold, from their start, the
  lines it returns, each with its LF, and the text left over after the last of these
  lines lies inside the last chunk consumed. Three ASCII digits have their decimal value.
\<close>

lemma first_LF_in_last:
  assumes "p @ c = x @ LF # t" "LF \<notin> set p"
  shows "length t < length c"
proof -
  have "length p \<le> length x"
  proof (rule ccontr)
    assume "\<not> length p \<le> length x"
    then have lt: "length x < length p" by simp
    then have "(p @ c) ! length x = p ! length x" by (simp add: nth_append)
    moreover have "(x @ LF # t) ! length x = LF" by simp
    ultimately have "p ! length x = LF" using assms(1) by simp
    with lt have "LF \<in> set p" by (metis nth_mem)
    with assms(2) show False by simp
  qed
  moreover from assms(1) have "length p + length c = length x + Suc (length t)"
    by (metis length_append length_Cons)
  ultimately show ?thesis by simp
qed

lemma fillBuffer_text:
  "fillBuffer b cs = (Inr b', cs') \<Longrightarrow>
   \<exists>used. cs = used @ cs' \<and> b' = b @ concat used \<and> LF \<in> set b'
     \<and> (used \<noteq> [] \<longrightarrow> LF \<notin> set (b @ concat (butlast used)))"
proof (induction cs arbitrary: b)
  case Nil
  then have "LF \<in> set b" "b' = b" "cs' = []" by (simp_all split: if_splits)
  then have "[] = [] @ cs' \<and> b' = b @ concat [] \<and> LF \<in> set b'
     \<and> (([]::chunk list) \<noteq> [] \<longrightarrow> LF \<notin> set (b @ concat (butlast [])))" by simp
  then show ?case by (rule exI)
next
  case (Cons c cs)
  show ?case
  proof (cases "LF \<in> set b")
    case True
    with Cons.prems have "b' = b" "cs' = c # cs" by simp_all
    with True have "c # cs = [] @ cs' \<and> b' = b @ concat [] \<and> LF \<in> set b'
       \<and> (([]::chunk list) \<noteq> [] \<longrightarrow> LF \<notin> set (b @ concat (butlast [])))" by simp
    then show ?thesis by (rule exI)
  next
    case False
    with Cons.prems have "fillBuffer (b @ c) cs = (Inr b', cs')" by simp
    from Cons.IH[OF this] obtain used where u: "cs = used @ cs'" "b' = (b @ c) @ concat used"
      "LF \<in> set b'" "used \<noteq> [] \<longrightarrow> LF \<notin> set ((b @ c) @ concat (butlast used))" by blast
    have "c # cs = (c # used) @ cs'" using u(1) by simp
    moreover have "b' = b @ concat (c # used)" using u(2) by simp
    moreover have "LF \<notin> set (b @ concat (butlast (c # used)))"
    proof (cases "used = []")
      case True
      with False show ?thesis by simp
    next
      case ne: False
      with u(4) show ?thesis by simp
    qed
    ultimately have "c # cs = (c # used) @ cs' \<and> b' = b @ concat (c # used) \<and> LF \<in> set b'
       \<and> (c # used \<noteq> [] \<longrightarrow> LF \<notin> set (b @ concat (butlast (c # used))))"
      using u(3) by simp
    then show ?thesis by (rule exI)
  qed
qed

lemma split_at_LF:
  assumes "LF \<in> set b"
  shows "b = takeWhile (\<lambda>c. c \<noteq> LF) b @ LF # tl (dropWhile (\<lambda>c. c \<noteq> LF) b)"
    and "LF \<notin> set (takeWhile (\<lambda>c. c \<noteq> LF) b)"
proof -
  from assms have ne: "dropWhile (\<lambda>c. c \<noteq> LF) b \<noteq> []" by (simp add: dropWhile_eq_Nil_conv)
  then have "hd (dropWhile (\<lambda>c. c \<noteq> LF) b) = LF" using hd_dropWhile[OF ne] by simp
  with ne have "dropWhile (\<lambda>c. c \<noteq> LF) b = LF # tl (dropWhile (\<lambda>c. c \<noteq> LF) b)"
    by (cases "dropWhile (\<lambda>c. c \<noteq> LF) b") auto
  then show "b = takeWhile (\<lambda>c. c \<noteq> LF) b @ LF # tl (dropWhile (\<lambda>c. c \<noteq> LF) b)"
    by (metis takeWhile_dropWhile_id)
  show "LF \<notin> set (takeWhile (\<lambda>c. c \<noteq> LF) b)"
    using set_takeWhileD by fastforce
qed

lemma readLine_text:
  assumes "readLine b cs = (Inr (l, b'), cs')"
  shows "\<exists>used x. cs = used @ cs' \<and> b @ concat used = x @ LF # b' \<and> LF \<notin> set x
     \<and> l = stripLineEnd x
     \<and> (if used = [] then length b' < length b else length b' < length (last used))"
proof -
  from assms obtain fb where f: "fillBuffer b cs = (Inr fb, cs')"
    and l: "l = stripLineEnd (takeWhile (\<lambda>c. c \<noteq> LF) fb)"
    and b': "b' = tl (dropWhile (\<lambda>c. c \<noteq> LF) fb)"
    by (auto simp: readLine_def split: prod.splits sum.splits)
  from fillBuffer_text[OF f] obtain used where u: "cs = used @ cs'" "fb = b @ concat used"
    "LF \<in> set fb" "used \<noteq> [] \<longrightarrow> LF \<notin> set (b @ concat (butlast used))" by blast
  let ?x = "takeWhile (\<lambda>c. c \<noteq> LF) fb"
  from split_at_LF[OF u(3)] b' have sp: "fb = ?x @ LF # b'" and nx: "LF \<notin> set ?x" by simp_all
  have "if used = [] then length b' < length b else length b' < length (last used)"
  proof (cases "used = []")
    case True
    with u(2) sp have "length b = length (?x @ LF # b')" by simp
    with True show ?thesis by simp
  next
    case False
    then have "concat used = concat (butlast used) @ last used"
      by (metis append_butlast_last_id concat_append concat.simps(2) concat.simps(1) append_Nil2)
    with u(2) sp have "(b @ concat (butlast used)) @ last used = ?x @ LF # b'" by simp
    from first_LF_in_last[OF this] u(4) False show ?thesis by simp
  qed
  with u(1) u(2) sp nx l show ?thesis by metis
qed

lemma readMore_text:
  "readMore d ls b cs = (Inr ls', cs') \<Longrightarrow>
   \<exists>used raws b'. cs = used @ cs'
     \<and> b @ concat used = concat (map (\<lambda>x. x @ [LF]) raws) @ b'
     \<and> (\<forall>x\<in>set raws. LF \<notin> set x)
     \<and> ls' = ls @ map stripLineEnd raws
     \<and> (if used = [] then length b' < length b else length b' < length (last used))"
proof (induction d ls b cs rule: readMore.induct)
  case (1 d ls b cs)
  obtain r1 cs1 where rl: "readLine b cs = (r1, cs1)" by (cases "readLine b cs")
  show ?case
  proof (cases r1)
    case (Inl e)
    with rl "1.prems" show ?thesis by (simp add: readMore_fail)
  next
    case (Inr lb)
    obtain l b1 where lb: "lb = (l, b1)" by (cases lb)
    from rl Inr lb have rl1: "readLine b cs = (Inr (l, b1), cs1)" by simp
    have rl': "(Inr (l, b1), cs1) = readLine b cs" using rl1 by simp
    from readLine_text[OF rl1] obtain used1 x where
      u1: "cs = used1 @ cs1" "b @ concat used1 = x @ LF # b1" "LF \<notin> set x" "l = stripLineEnd x"
      "if used1 = [] then length b1 < length b else length b1 < length (last used1)" by blast
    show ?thesis
    proof (cases "startsWith l (d @ '' '')")
      case True
      with "1.prems" rl1 have "ls' = ls @ [l]" "cs' = cs1" by (simp_all add: readMore_step)
      with u1 have "cs = used1 @ cs'"
        "b @ concat used1 = concat (map (\<lambda>x. x @ [LF]) [x]) @ b1"
        "\<forall>y\<in>set [x]. LF \<notin> set y" "ls' = ls @ map stripLineEnd [x]" by simp_all
      with u1(5) show ?thesis by blast
    next
      case False
      with "1.prems" rl1 have "readMore d (ls @ [l]) b1 cs1 = (Inr ls', cs')"
        by (simp add: readMore_step)
      from "1.IH"[OF rl' refl refl False this] obtain used2 raws b2 where
        u2: "cs1 = used2 @ cs'" "b1 @ concat used2 = concat (map (\<lambda>x. x @ [LF]) raws) @ b2"
        "\<forall>y\<in>set raws. LF \<notin> set y" "ls' = (ls @ [l]) @ map stripLineEnd raws"
        "if used2 = [] then length b2 < length b1 else length b2 < length (last used2)" by blast
      have a: "cs = (used1 @ used2) @ cs'" using u1(1) u2(1) by simp
      have "b @ concat (used1 @ used2) = x @ LF # (b1 @ concat used2)" using u1(2) by simp
      with u2(2) have b: "b @ concat (used1 @ used2) = concat (map (\<lambda>x. x @ [LF]) (x # raws)) @ b2"
        by simp
      have c: "\<forall>y\<in>set (x # raws). LF \<notin> set y" using u1(3) u2(3) by simp
      have e: "ls' = ls @ map stripLineEnd (x # raws)" using u1(4) u2(4) by simp
      have f: "if used1 @ used2 = [] then length b2 < length b
               else length b2 < length (last (used1 @ used2))"
        using u1(5) u2(5) by (cases "used2 = []"; cases "used1 = []") auto
      from a b c e f show ?thesis by blast
    qed
  qed
qed

lemma readSmtpResponse_text:
  assumes "readSmtpResponse cs = (Inr r, rest)"
  shows "\<exists>used raws tail. cs = used @ rest \<and> used \<noteq> []
     \<and> concat used = concat (map (\<lambda>x. x @ [LF]) raws) @ tail
     \<and> (\<forall>x\<in>set raws. LF \<notin> set x)
     \<and> lines r = map stripLineEnd raws
     \<and> length tail < length (last used)"
proof -
  obtain r1 cs1 where rl: "readLine [] cs = (r1, cs1)" by (cases "readLine [] cs")
  from assms rl obtain first buf where r1: "r1 = Inr (first, buf)"
    by (cases r1) (auto simp: readSmtpResponse_def)
  with rl have rl1: "readLine [] cs = (Inr (first, buf), cs1)" by simp
  from readLine_text[OF rl1] obtain used1 x where
    u1: "cs = used1 @ cs1" "[] @ concat used1 = x @ LF # buf" "LF \<notin> set x" "first = stripLineEnd x"
    "if used1 = [] then length buf < length ([]::string) else length buf < length (last used1)"
    by blast
  from u1(5) have ne1: "used1 \<noteq> []" and lb: "length buf < length (last used1)"
    by (auto split: if_splits)
  let ?d = "take 3 first"
  from assms rl1 obtain n where n: "finiteNumber ?d = Some n" and len: "length ?d = 3"
    by (auto simp: readSmtpResponse_def Let_def split: option.splits if_splits)
  show ?thesis
  proof (cases "3 < length first \<and> first ! 3 = CHR ''-''")
    case False
    with assms rl1 n len have "r = \<lparr>code = n, lines = [first]\<rparr>" "rest = cs1"
      by (auto simp: readSmtpResponse_def Let_def)
    with u1 ne1 lb have "cs = used1 @ rest" "used1 \<noteq> []"
      "concat used1 = concat (map (\<lambda>x. x @ [LF]) [x]) @ buf"
      "\<forall>y\<in>set [x]. LF \<notin> set y" "lines r = map stripLineEnd [x]"
      "length buf < length (last used1)" by simp_all
    then show ?thesis by blast
  next
    case True
    with assms rl1 n len obtain ls where
      rm: "readMore ?d [first] buf cs1 = (Inr ls, rest)" and r: "r = \<lparr>code = n, lines = ls\<rparr>"
      by (auto simp: readSmtpResponse_def Let_def split: prod.splits sum.splits)
    from readMore_text[OF rm] obtain used2 raws b2 where
      u2: "cs1 = used2 @ rest" "buf @ concat used2 = concat (map (\<lambda>x. x @ [LF]) raws) @ b2"
      "\<forall>y\<in>set raws. LF \<notin> set y" "ls = [first] @ map stripLineEnd raws"
      "if used2 = [] then length b2 < length buf else length b2 < length (last used2)" by blast
    have a: "cs = (used1 @ used2) @ rest" using u1(1) u2(1) by simp
    have "concat (used1 @ used2) = x @ LF # (buf @ concat used2)" using u1(2) by simp
    with u2(2) have b: "concat (used1 @ used2) = concat (map (\<lambda>x. x @ [LF]) (x # raws)) @ b2"
      by simp
    have c: "\<forall>y\<in>set (x # raws). LF \<notin> set y" using u1(3) u2(3) by simp
    have e: "lines r = map stripLineEnd (x # raws)" using r u1(4) u2(4) by simp
    have f: "length b2 < length (last (used1 @ used2))"
      using lb ne1 u2(5) by (cases "used2 = []") auto
    have g: "used1 @ used2 \<noteq> []" using ne1 by simp
    from a b c e f g show ?thesis by blast
  qed
qed

lemma three_digits_value:
  assumes "length d = 3" "list_all isDigit d"
  shows "finiteNumber d = Some (of_nat (100 * ((of_char (d ! 0) :: nat) - 48)
           + 10 * ((of_char (d ! 1) :: nat) - 48) + ((of_char (d ! 2) :: nat) - 48)))"
proof -
  from assms(1) obtain a b c where d: "d = [a, b, c]"
    by (cases d; cases "tl d"; cases "tl (tl d)") auto
  with assms(2) have dg: "isDigit a" "isDigit b" "isDigit c" by simp_all
  then have nws: "\<not> isWhiteSpace a" "\<not> isWhiteSpace c"
    by (auto simp: isDigit_def isWhiteSpace_def)
  from dg(2) have bx: "b \<noteq> CHR ''x''" "b \<noteq> CHR ''X''" "b \<noteq> CHR ''o''" "b \<noteq> CHR ''O''"
    "b \<noteq> CHR ''b''" "b \<noteq> CHR ''B''"
    by (auto simp: isDigit_def)
  from dg(1) have as: "a \<noteq> CHR ''+''" "a \<noteq> CHR ''-''" by (auto simp: isDigit_def)
  have rd: "\<And>ch. isDigit ch \<Longrightarrow> radixDigit 10 ch = Some ((of_char ch :: nat) - 48)"
    by (auto simp: radixDigit_def isDigit_def Let_def)
  show ?thesis
    using d dg nws bx as
    by (simp add: finiteNumber_def trim_def startsWith_def strDecimalLiteral_def
        strUnsignedDecimalLiteral_def Let_def rd scale10_def)
qed

text \<open>
  Claim C4, amended. Every Reply returned whose first line begins with three ASCII digits
  has at least one line, and these three digits are the code. When the character at
  offset 3 of the first line is not a hyphen the Reply is that line alone, whatever
  follows the three digits (a space is not required). Otherwise the Reply has at least two
  lines, the first line carries the three digits followed by a hyphen, the last line the
  same three digits followed by a space, and no line strictly between the first and the
  last begins with the three digits followed by a space; the lines in between are not
  checked otherwise. Reading stops exactly there: the lines of the Reply are the first
  lines of the stream, in order and without gaps, and the read consumes the chunks up to
  the one that holds the LF of the last line and no chunk after it.
\<close>

theorem readSmtpResponse_reply_shape:
  assumes "readSmtpResponse cs = (Inr r, rest)"
    and "list_all isDigit (take 3 (hd (lines r)))"
  shows "lines r \<noteq> []
    \<and> length (take 3 (hd (lines r))) = 3
    \<and> finiteNumber (take 3 (hd (lines r))) = Some (code r)
    \<and> code r = of_nat (100 * ((of_char (hd (lines r) ! 0) :: nat) - 48)
                      + 10 * ((of_char (hd (lines r) ! 1) :: nat) - 48)
                      + ((of_char (hd (lines r) ! 2) :: nat) - 48))
    \<and> (if 3 < length (hd (lines r)) \<and> hd (lines r) ! 3 = CHR ''-''
        then 2 \<le> length (lines r)
          \<and> startsWith (hd (lines r)) (take 3 (hd (lines r)) @ ''-'')
          \<and> startsWith (last (lines r)) (take 3 (hd (lines r)) @ '' '')
          \<and> (\<forall>l\<in>set (butlast (tl (lines r))). \<not> startsWith l (take 3 (hd (lines r)) @ '' ''))
        else lines r = [hd (lines r)])
    \<and> (\<exists>used raws tail.
          cs = used @ rest \<and> used \<noteq> []
          \<and> concat used = concat (map (\<lambda>x. x @ [LF]) raws) @ tail
          \<and> (\<forall>x\<in>set raws. LF \<notin> set x)
          \<and> lines r = map stripLineEnd raws
          \<and> length tail < length (last used))"
proof -
  obtain r1 cs1 where rl: "readLine [] cs = (r1, cs1)" by (cases "readLine [] cs")
  from assms(1) rl obtain first buf where r1: "r1 = Inr (first, buf)"
    by (cases r1) (auto simp: readSmtpResponse_def)
  with rl have rl1: "readLine [] cs = (Inr (first, buf), cs1)" by simp
  let ?d = "take 3 first"
  from assms(1) rl1 obtain n where n: "finiteNumber ?d = Some n" and len: "length ?d = 3"
    by (auto simp: readSmtpResponse_def Let_def split: option.splits if_splits)
  have shape: "lines r \<noteq> [] \<and> hd (lines r) = first \<and> code r = n
    \<and> (if 3 < length first \<and> first ! 3 = CHR ''-''
        then 2 \<le> length (lines r)
          \<and> startsWith (last (lines r)) (?d @ '' '')
          \<and> (\<forall>l\<in>set (butlast (tl (lines r))). \<not> startsWith l (?d @ '' ''))
        else lines r = [first])"
  proof (cases "3 < length first \<and> first ! 3 = CHR ''-''")
    case False
    with assms(1) rl1 n len have "r = \<lparr>code = n, lines = [first]\<rparr>"
      by (auto simp: readSmtpResponse_def Let_def)
    with False show ?thesis by auto
  next
    case True
    with assms(1) rl1 n len obtain ls where
      rm: "readMore ?d [first] buf cs1 = (Inr ls, rest)" and r: "r = \<lparr>code = n, lines = ls\<rparr>"
      by (auto simp: readSmtpResponse_def Let_def split: prod.splits sum.splits)
    from readMore_lines[OF rm] obtain mid l where
      ls: "ls = [first] @ mid @ [l]" and l: "startsWith l (?d @ '' '')"
      and mid: "\<forall>m\<in>set mid. \<not> startsWith m (?d @ '' '')" by blast
    from ls have "hd ls = first" "last ls = l" "butlast (tl ls) = mid" "2 \<le> length ls" "ls \<noteq> []"
      by simp_all
    with r True l mid show ?thesis by simp
  qed
  then have hd: "hd (lines r) = first" and cd: "code r = n" by simp_all
  from assms(2) hd have dig: "list_all isDigit ?d" by simp
  from len have l3: "3 \<le> length first" by simp
  then have nth: "?d ! 0 = first ! 0" "?d ! 1 = first ! 1" "?d ! 2 = first ! 2" by simp_all
  from three_digits_value[OF len dig] n nth
  have val: "n = of_nat (100 * ((of_char (first ! 0) :: nat) - 48)
                      + 10 * ((of_char (first ! 1) :: nat) - 48)
                      + ((of_char (first ! 2) :: nat) - 48))" by simp
  have hy: "3 < length first \<and> first ! 3 = CHR ''-'' \<Longrightarrow> startsWith first (?d @ ''-'')"
  proof -
    assume h: "3 < length first \<and> first ! 3 = CHR ''-''"
    then have "take 4 first = take 3 first @ [first ! 3]"
      by (simp add: take_Suc_conv_app_nth numeral_eq_Suc)
    with h len show ?thesis by (simp add: startsWith_def)
  qed
  from shape hd cd n len val hy readSmtpResponse_text[OF assms(1)] show ?thesis
    by (simp split: if_splits)
qed

lemma two_chunk_reply:
  "readSmtpResponse [''250-example.com'' @ CRLF @ ''250-AUTH PLAIN LOGIN'' @ CRLF,
                     ''250 SIZE 35882577'' @ CRLF @ ''354 extra'' @ CRLF,
                     ''220 next'' @ CRLF] =
   (Inr \<lparr>code = 250,
         lines = [''250-example.com'', ''250-AUTH PLAIN LOGIN'', ''250 SIZE 35882577'']\<rparr>,
    [''220 next'' @ CRLF])"
  by code_simp

theorem readSmtpResponse_reply_shape_witness:
  "readSmtpResponse [''250-example.com'' @ CRLF @ ''250-AUTH PLAIN LOGIN'' @ CRLF,
                     ''250 SIZE 35882577'' @ CRLF @ ''354 extra'' @ CRLF,
                     ''220 next'' @ CRLF] =
     (Inr \<lparr>code = 250,
           lines = [''250-example.com'', ''250-AUTH PLAIN LOGIN'', ''250 SIZE 35882577'']\<rparr>,
      [''220 next'' @ CRLF])
   \<and> list_all isDigit (take 3 ''250-example.com'')
   \<and> finiteNumber ''250'' = Some 250
   \<and> startsWith ''250-example.com'' ''250-''
   \<and> startsWith ''250 SIZE 35882577'' ''250 ''
   \<and> \<not> startsWith ''250-AUTH PLAIN LOGIN'' ''250 ''"
proof -
  have d: "list_all isDigit (take 3 (hd (lines \<lparr>code = 250,
         lines = [''250-example.com'', ''250-AUTH PLAIN LOGIN'', ''250 SIZE 35882577'']\<rparr>)))"
    by (simp add: isDigit_def)
  from readSmtpResponse_reply_shape[OF two_chunk_reply d] two_chunk_reply d
  show ?thesis by (simp add: startsWith_def)
qed

subsection \<open>The line buffer is local to one read\<close>

text \<open>
  Claim C9. The line buffer belongs to a single read of a reply: when the chunk that holds
  the end of the reply extends beyond its final line, the excess is dropped with the
  buffer when the read returns. Whatever text is appended to the last chunk read, the
  reply is the same and the stream is left at the same place, the next chunk, so the next
  read starts there with an empty buffer and never sees the excess.
\<close>

theorem readSmtpResponse_discards_excess:
  assumes "readSmtpResponse (pre @ c # rest) = (Inr r, rest)"
  shows "readSmtpResponse (pre @ (c @ excess) # rest) = (Inr r, rest)"
proof -
  let ?cs = "pre @ c # rest"
  obtain r1 cs1 where rl: "readLine [] ?cs = (r1, cs1)" by (cases "readLine [] ?cs")
  from assms rl obtain first buf where r1: "r1 = Inr (first, buf)"
    by (cases r1) (auto simp: readSmtpResponse_def)
  with rl have rl1: "readLine [] ?cs = (Inr (first, buf), cs1)" by simp
  from readLine_suffix[OF rl1] obtain u where u: "?cs = u @ cs1" by blast
  let ?d = "take 3 first"
  from assms rl1 obtain n where n: "finiteNumber ?d = Some n" and len: "length ?d = 3"
    by (auto simp: readSmtpResponse_def Let_def split: option.splits if_splits)
  show ?thesis
  proof (cases "3 < length first \<and> first ! 3 = CHR ''-''")
    case single: False
    with assms rl1 n len have "cs1 = rest" and r: "r = \<lparr>code = n, lines = [first]\<rparr>"
      by (auto simp: readSmtpResponse_def Let_def)
    with rl1 have "readLine [] ?cs = (Inr (first, buf), rest)" by simp
    from readLine_excess[OF this]
    have "readLine [] (pre @ (c @ excess) # rest) = (Inr (first, buf @ excess), rest)" .
    with single n len r show ?thesis by (auto simp: readSmtpResponse_def Let_def)
  next
    case multi: True
    with assms rl1 n len obtain ls where
      rm: "readMore ?d [first] buf cs1 = (Inr ls, rest)" and r: "r = \<lparr>code = n, lines = ls\<rparr>"
      by (auto simp: readSmtpResponse_def Let_def split: prod.splits sum.splits)
    have "\<exists>b2 cs2. readLine [] (pre @ (c @ excess) # rest) = (Inr (first, b2), cs2)
            \<and> readMore ?d [first] b2 cs2 = (Inr ls, rest)"
    proof (cases "cs1 = rest")
      case True
      with rl1 have "readLine [] ?cs = (Inr (first, buf), rest)" by simp
      from readLine_excess[OF this]
      have "readLine [] (pre @ (c @ excess) # rest) = (Inr (first, buf @ excess), rest)" .
      moreover from rm True have "readMore ?d [first] buf rest = (Inr ls, rest)" by simp
      from readMore_nothing_read[OF this]
      have "readMore ?d [first] (buf @ excess) rest = (Inr ls, rest)" .
      ultimately show ?thesis by blast
    next
      case False
      from readMore_suffix[OF rm] obtain v where v: "cs1 = v @ rest" by blast
      from split_at_chunk[OF u v False] obtain p1 where p1: "cs1 = p1 @ c # rest" "pre = u @ p1"
        by blast
      from rl1 p1 have "readLine [] ((u @ p1) @ c # rest) = (Inr (first, buf), p1 @ c # rest)"
        by simp
      from readLine_unreached[OF this, of "(c @ excess) # rest"] p1
      have "readLine [] (pre @ (c @ excess) # rest) = (Inr (first, buf), p1 @ (c @ excess) # rest)"
        by simp
      moreover from rm p1 have "readMore ?d [first] buf (p1 @ c # rest) = (Inr ls, rest)" by simp
      from readMore_excess[OF this]
      have "readMore ?d [first] buf (p1 @ (c @ excess) # rest) = (Inr ls, rest)" .
      ultimately show ?thesis by blast
    qed
    then obtain b2 cs2 where
      "readLine [] (pre @ (c @ excess) # rest) = (Inr (first, b2), cs2)"
      "readMore ?d [first] b2 cs2 = (Inr ls, rest)" by blast
    with multi n len r show ?thesis
      by (simp add: readSmtpResponse_def Let_def)
  qed
qed

lemma ex9a: "readSmtpResponse [''220 ready'' @ CRLF, ''354 go'' @ CRLF] =
    (Inr \<lparr>code = 220, lines = [''220 ready'']\<rparr>, [''354 go'' @ CRLF])"
  by code_simp

theorem readSmtpResponse_discards_excess_witness:
  "readSmtpResponse ([] @ (''220 ready'' @ CRLF) # [''354 go'' @ CRLF]) =
      (Inr \<lparr>code = 220, lines = [''220 ready'']\<rparr>, [''354 go'' @ CRLF])
   \<and> readSmtpResponse ([] @ ((''220 ready'' @ CRLF) @ (''250 injected'' @ CRLF)) # [''354 go'' @ CRLF]) =
      (Inr \<lparr>code = 220, lines = [''220 ready'']\<rparr>, [''354 go'' @ CRLF])"
proof -
  have h: "readSmtpResponse ([] @ (''220 ready'' @ CRLF) # [''354 go'' @ CRLF]) =
      (Inr \<lparr>code = 220, lines = [''220 ready'']\<rparr>, [''354 go'' @ CRLF])"
    using ex9a by simp
  from readSmtpResponse_discards_excess[OF h, of "''250 injected'' @ CRLF"] h
  show ?thesis by blast
qed

section \<open>Properties of authentication\<close>

















section \<open>Properties of the session\<close>

subsection \<open>Port 25\<close>

text \<open>
  Claim C8. For every configuration with port 25, and every other configuration and
  message field, the send fails with UnsupportedPort and leaves the world as it was: no
  connection is opened, nothing is read or written, no identifier is drawn.
\<close>

theorem smtpSendMail_rejects_port_25:
  "port config = 25 \<Longrightarrow> smtpSendMail config mail w = (Inl UnsupportedPort, w)"
  by (simp add: smtpSendMail_def io_throw_def)

theorem smtpSendMail_rejects_port_25_witness:
  "port cfg25 = 25 \<and> smtpSendMail cfg25 mail1 quiet = (Inl UnsupportedPort, quiet)
   \<and> trace quiet = []"
  using smtpSendMail_rejects_port_25 [of cfg25 mail1 quiet] by (simp add: cfg25_def quiet_def)

subsection \<open>Validation in the public send\<close>

text \<open>
  Claim C10. The public send rejects with a validation error, leaving the world as it
  was (no connection opened, no command written), every input whose subject is the empty
  string, whose from is the empty string, whose to is an empty string, an empty list or a
  list that holds an empty string, or whose text or html is supplied and empty.
\<close>

theorem send_rejects_empty_fields:
  assumes "in_subject input = '''' \<or> in_from input = '''' \<or> in_to input = One ''''
     \<or> in_to input = Many [] \<or> (\<exists>as. in_to input = Many as \<and> '''' \<in> set as)
     \<or> in_text input = Some '''' \<or> in_html input = Some ''''"
  shows "send parsedConfig input w = (Inl ValidationError, w)"
proof -
  have "validateSendMailInput input = Inl ValidationError"
    using assms
    by (auto simp: validateSendMailInput_def list_all_iff Suc_le_eq
        split: recipients.splits option.splits)
  then show ?thesis by (simp add: send_def io_throw_def)
qed

theorem send_rejects_empty_fields_witness:
  "in_subject input_empty_subject = ''''
   \<and> send cfg465 input_empty_subject quiet = (Inl ValidationError, quiet)
   \<and> trace quiet = []"
proof -
  have h: "in_subject input_empty_subject = ''''" by (simp add: input_empty_subject_def)
  then have "in_subject input_empty_subject = '''' \<or> in_from input_empty_subject = ''''
     \<or> in_to input_empty_subject = One ''''
     \<or> in_to input_empty_subject = Many []
     \<or> (\<exists>as. in_to input_empty_subject = Many as \<and> '''' \<in> set as)
     \<or> in_text input_empty_subject = Some '''' \<or> in_html input_empty_subject = Some ''''"
    by simp
  from send_rejects_empty_fields [OF this, of cfg465 quiet] h show ?thesis
    by (simp add: quiet_def)
qed

subsection \<open>Two sessions, evaluated\<close>

lemma rejects_rcpt_result:
  "fst (smtpSendMail cfg465 mail1 server_rejects_rcpt) =
     Inl (ProtocolError ''RCPT TO'' 550 [''550 no such user''])"
  by code_simp

lemma rejects_rcpt_trace:
  "trace (snd (smtpSendMail cfg465 mail1 server_rejects_rcpt)) =
     [Connect ''smtp.example.com'' 465 On,
      Write Initial (''EHLO localhost'' @ CRLF),
      Write Initial (''AUTH PLAIN AHVzZXIAcGFzcw=='' @ CRLF),
      Write Initial (''MAIL FROM:<a@example.com>'' @ CRLF),
      Write Initial (''RCPT TO:<b@example.com>'' @ CRLF),
      Write Initial (''RCPT TO:<c@example.com>'' @ CRLF)]"
  by code_simp

lemma accepts_result:
  "fst (smtpSendMail cfg465 mail1 server_accepts) = Inr \<lparr>messageId = ''id''\<rparr>"
  by code_simp

lemma accepts_trace:
  "trace (snd (smtpSendMail cfg465 mail1 server_accepts)) =
     [Connect ''smtp.example.com'' 465 On,
      Write Initial (''EHLO localhost'' @ CRLF),
      Write Initial (''AUTH PLAIN AHVzZXIAcGFzcw=='' @ CRLF),
      Write Initial (''MAIL FROM:<a@example.com>'' @ CRLF),
      Write Initial (''RCPT TO:<b@example.com>'' @ CRLF),
      Write Initial (''RCPT TO:<c@example.com>'' @ CRLF),
      Write Initial (''DATA'' @ CRLF),
      Write Initial (''From: a@example.com'' @ CRLF @ ''To: b@example.com, c@example.com'' @ CRLF
        @ ''Subject: Hi'' @ CRLF @ ''MIME-Version: 1.0'' @ CRLF
        @ ''Content-Type: text/plain; charset='' @ [CHR 0x22] @ ''utf-8'' @ [CHR 0x22] @ CRLF @ CRLF
        @ ''..hello'' @ CRLF @ ''..'' @ CRLF @ ''.'' @ CRLF),
      Write Initial (''QUIT'' @ CRLF),
      Close Initial]"
  by code_simp

subsection \<open>Closing the socket\<close>

text \<open>
  Sequencing keeps each of the three properties. No step of the session before the final
  close closes a socket, so a session that ends in an error has closed nothing, whatever
  the configuration, the mail and the server; and a session that returns has closed its
  socket last.
\<close>

lemma never_closes_fails: "never_closes m \<Longrightarrow> fails_unclosed m"
  by (simp add: never_closes_def fails_unclosed_def)

lemma never_closes_bind:
  assumes "never_closes m" "\<And>x. never_closes (f x)"
  shows "never_closes (io_bind m f)"
  unfolding never_closes_def
proof (intro allI impI)
  fix w s
  assume c: "Close s \<in> set (trace (snd (io_bind m f w)))"
  obtain r w1 where mw: "m w = (r, w1)" by (cases "m w")
  show "Close s \<in> set (trace w)"
  proof (cases r)
    case (Inl e)
    with mw c have "Close s \<in> set (trace (snd (m w)))" by (simp add: io_bind_def)
    with assms(1) show ?thesis by (simp add: never_closes_def)
  next
    case (Inr x)
    with mw c have "Close s \<in> set (trace (snd (f x w1)))" by (simp add: io_bind_def)
    with assms(2)[of x] have "Close s \<in> set (trace w1)" by (simp add: never_closes_def)
    with mw have "Close s \<in> set (trace (snd (m w)))" by simp
    with assms(1) show ?thesis by (simp add: never_closes_def)
  qed
qed

lemma fails_unclosed_bind:
  assumes "never_closes m" "\<And>x. fails_unclosed (f x)"
  shows "fails_unclosed (io_bind m f)"
  unfolding fails_unclosed_def
proof (intro allI impI)
  fix w e s
  assume f: "fst (io_bind m f w) = Inl e"
    and c: "Close s \<in> set (trace (snd (io_bind m f w)))"
  obtain r w1 where mw: "m w = (r, w1)" by (cases "m w")
  show "Close s \<in> set (trace w)"
  proof (cases r)
    case (Inl e')
    with mw c have "Close s \<in> set (trace (snd (m w)))" by (simp add: io_bind_def)
    with assms(1) show ?thesis by (simp add: never_closes_def)
  next
    case (Inr x)
    with mw c f have "fst (f x w1) = Inl e" "Close s \<in> set (trace (snd (f x w1)))"
      by (simp_all add: io_bind_def)
    with assms(2)[of x] have "Close s \<in> set (trace w1)" by (simp add: fails_unclosed_def)
    with mw have "Close s \<in> set (trace (snd (m w)))" by simp
    with assms(1) show ?thesis by (simp add: never_closes_def)
  qed
qed

lemma never_closes_return: "never_closes (io_return x)"
  by (simp add: never_closes_def io_return_def)

lemma never_closes_throw: "never_closes (io_throw e)"
  by (simp add: never_closes_def io_throw_def)

lemma never_closes_writeSmtpCommand: "never_closes (writeSmtpCommand s c)"
  by (simp add: never_closes_def writeSmtpCommand_def writer_write_def emit_def)

lemma never_closes_writer_write: "never_closes (writer_write s c)"
  by (simp add: never_closes_def writer_write_def emit_def)

lemma never_closes_connect: "never_closes (connect h p m)"
  by (simp add: never_closes_def connect_def emit_def)

lemma never_closes_startTls: "never_closes startTls"
  by (simp add: never_closes_def startTls_def emit_def)

lemma never_closes_randomUUID: "never_closes randomUUID"
  by (simp add: never_closes_def randomUUID_def)

lemma never_closes_readReply: "never_closes (readReply s)"
  by (cases s) (auto simp: never_closes_def readReply_def split: prod.splits)

lemma never_closes_assertSmtpOk: "never_closes (assertSmtpOk r cs n)"
  by (simp add: never_closes_def assertSmtpOk_def io_return_def io_throw_def)

lemmas never_closes_intros =
  never_closes_bind never_closes_return never_closes_throw never_closes_writeSmtpCommand
  never_closes_writer_write never_closes_connect never_closes_startTls never_closes_randomUUID
  never_closes_readReply never_closes_assertSmtpOk

lemma never_closes_createMessage: "never_closes (createMessage mail)"
  by (auto simp: createMessage_def Let_def intro!: never_closes_intros)

lemma never_closes_smtpAuth: "never_closes (smtpAuth caps creds s)"
  by (auto simp: smtpAuth_def split: sum.splits intro!: never_closes_intros)

lemma never_closes_rcptLoop: "never_closes (rcptLoop s rs)"
  by (induction rs) (auto intro!: never_closes_intros)

lemma never_closes_auth_step:
  "never_closes (case a of None \<Rightarrow> io_return () | Some creds \<Rightarrow> smtpAuth caps creds s)"
  by (cases a) (simp_all add: never_closes_return never_closes_smtpAuth)

lemma fails_unclosed_tail:
  "fails_unclosed (io_bind (close s) (\<lambda>_. io_bind randomUUID (\<lambda>uuid. io_return \<lparr>messageId = uuid\<rparr>)))"
  by (simp add: fails_unclosed_def io_bind_def close_def emit_def randomUUID_def io_return_def)

lemma fails_unclosed_sendEnvelope: "fails_unclosed (sendEnvelope s mail)"
  unfolding sendEnvelope_def Let_def
  by (intro fails_unclosed_bind never_closes_intros never_closes_createMessage
      never_closes_rcptLoop fails_unclosed_tail)

lemma fails_unclosed_if:
  "fails_unclosed a \<Longrightarrow> fails_unclosed b \<Longrightarrow> fails_unclosed (if c then a else b)"
  by simp

lemma fails_unclosed_throw: "fails_unclosed (io_throw e)"
  by (simp add: never_closes_fails never_closes_throw)

lemma fails_unclosed_smtpSendMail: "fails_unclosed (smtpSendMail config mail)"
  unfolding smtpSendMail_def Let_def
  by (intro fails_unclosed_if fails_unclosed_throw fails_unclosed_bind never_closes_intros
      never_closes_auth_step fails_unclosed_sendEnvelope)

lemma smtpSendMail_error_never_closes:
  assumes "fst (smtpSendMail config mail w) = Inl e"
    and "Close s \<in> set (trace (snd (smtpSendMail config mail w)))"
  shows "Close s \<in> set (trace w)"
  using fails_unclosed_smtpSendMail[of config mail] assms
  unfolding fails_unclosed_def by blast

lemma ends_closed_bind:
  assumes "\<And>x. ends_closed (f x)"
  shows "ends_closed (io_bind m f)"
  unfolding ends_closed_def
proof (intro allI impI)
  fix w y
  assume ok: "fst (io_bind m f w) = Inr y"
  obtain r w1 where mw: "m w = (r, w1)" by (cases "m w")
  show "trace (snd (io_bind m f w)) \<noteq> [] \<and> (\<exists>s. last (trace (snd (io_bind m f w))) = Close s)"
  proof (cases r)
    case (Inl e)
    with mw ok show ?thesis by (simp add: io_bind_def)
  next
    case (Inr x)
    with mw ok have "fst (f x w1) = Inr y" by (simp add: io_bind_def)
    with assms[of x] have "trace (snd (f x w1)) \<noteq> [] \<and> (\<exists>s. last (trace (snd (f x w1))) = Close s)"
      by (simp add: ends_closed_def)
    with mw Inr show ?thesis by (simp add: io_bind_def)
  qed
qed

lemma ends_closed_if: "ends_closed a \<Longrightarrow> ends_closed b \<Longrightarrow> ends_closed (if c then a else b)"
  by simp

lemma ends_closed_throw: "ends_closed (io_throw e)"
  by (simp add: ends_closed_def io_throw_def)

lemma ends_closed_tail:
  "ends_closed (io_bind (close s) (\<lambda>_. io_bind randomUUID (\<lambda>uuid. io_return \<lparr>messageId = uuid\<rparr>)))"
  by (simp add: ends_closed_def io_bind_def close_def emit_def randomUUID_def io_return_def)

lemma ends_closed_sendEnvelope: "ends_closed (sendEnvelope s mail)"
  unfolding sendEnvelope_def Let_def
  by (intro ends_closed_bind ends_closed_tail)

lemma ends_closed_smtpSendMail: "ends_closed (smtpSendMail config mail)"
  unfolding smtpSendMail_def Let_def
  by (intro ends_closed_if ends_closed_throw ends_closed_bind ends_closed_sendEnvelope)

lemma smtpSendMail_success_closes:
  assumes "fst (smtpSendMail config mail w) = Inr result"
  shows "\<exists>s. last (trace (snd (smtpSendMail config mail w))) = Close s"
  using ends_closed_smtpSendMail[of config mail] assms
  unfolding ends_closed_def by blast

text \<open>
  Claim C1. The claim: on every exit path, error paths included, the socket is closed
  before the send returns or the error propagates. The source closes the socket on the
  success path only. Against the server that answers 550 to the second RCPT TO the send
  fails with the ProtocolError of that stage, and the trace of the session holds no close
  of either socket; against the server that accepts everything the last event is the
  close.
\<close>

theorem smtpSendMail_leaves_socket_open_on_error:
  "fst (smtpSendMail cfg465 mail1 server_rejects_rcpt) =
     Inl (ProtocolError ''RCPT TO'' 550 [''550 no such user''])
   \<and> Close Initial \<notin> set (trace (snd (smtpSendMail cfg465 mail1 server_rejects_rcpt)))
   \<and> Close Upgraded \<notin> set (trace (snd (smtpSendMail cfg465 mail1 server_rejects_rcpt)))
   \<and> fst (smtpSendMail cfg465 mail1 server_accepts) = Inr \<lparr>messageId = ''id''\<rparr>
   \<and> last (trace (snd (smtpSendMail cfg465 mail1 server_accepts))) = Close Initial"
  by (simp add: rejects_rcpt_result rejects_rcpt_trace accepts_result accepts_trace)

subsection \<open>The stages of the session\<close>

text \<open>
  The laws of sequencing, and each stage of the specification unfolded into the write,
  the read and the check of the source.
\<close>

lemma io_bind_return [simp]: "io_bind (io_return x) f = f x"
  by (rule ext) (simp add: io_bind_def io_return_def)

lemma io_bind_throw [simp]: "io_bind (io_throw e) f = io_throw e"
  by (rule ext) (simp add: io_bind_def io_throw_def)

lemma io_bind_assoc: "io_bind (io_bind m f) g = io_bind m (\<lambda>x. io_bind (f x) g)"
  by (rule ext) (simp add: io_bind_def split: prod.splits sum.splits)

lemma io_bind_if: "io_bind (if c then a else b) f = (if c then io_bind a f else io_bind b f)"
  by simp

lemma assert_then:
  "io_bind (assertSmtpOk reply expected name) (\<lambda>_. k) =
     (if code reply \<in> set expected then k
      else io_throw (ProtocolError name (code reply) (lines reply)))"
  by (simp add: assertSmtpOk_def)

lemma spec_stage_then:
  "io_bind (spec_stage request s name expected) k =
     io_bind request (\<lambda>_. io_bind (readReply s) (\<lambda>reply.
       io_bind (assertSmtpOk reply expected name) (\<lambda>_. k reply)))"
  by (simp add: spec_stage_def io_bind_assoc assert_then io_bind_if cong: if_cong)

lemma rcptLoop_spec: "rcptLoop s rs = spec_rcpt_stages s rs"
  by (induction rs) (simp_all add: spec_stage_then)

lemma smtpSendMail_stages:
  "smtpSendMail config mail = spec_session config mail"
proof (cases "port config = 25")
  case True
  then show ?thesis by (simp add: smtpSendMail_def spec_session_def)
next
  case False
  show ?thesis
  proof (cases "getSmtpSecureTransport (port config) (secure config) = Starttls")
    case True
    with False show ?thesis
      by (simp add: smtpSendMail_def spec_session_def sendEnvelope_def Let_def
          spec_stage_then spec_final_stage_def rcptLoop_spec io_bind_assoc)
  next
    case plain: False
    with False show ?thesis
      by (simp add: smtpSendMail_def spec_session_def sendEnvelope_def Let_def
          spec_stage_then spec_final_stage_def rcptLoop_spec io_bind_assoc)
  qed
qed

lemma spec_stage_run:
  assumes "request w = (Inr (), w1)" "readReply s w1 = (Inr reply, w2)"
  shows "spec_stage request s name expected w =
          (if code reply \<in> set expected then (Inr reply, w2)
           else (Inl (ProtocolError name (code reply) (lines reply)), w2))"
  using assms by (simp add: spec_stage_def io_bind_def io_return_def io_throw_def)

lemma spec_final_stage_run:
  assumes "request w = (Inr (), w1)" "readReply s w1 = (Inr reply, w2)"
  shows "spec_final_stage request s w = (Inr (), w2)"
  using assms by (simp add: spec_final_stage_def io_bind_def io_return_def)

text \<open>
  Claim C2. For every configuration, mail and server, the session of the source is the
  state machine of the specification: greeting expecting 220, EHLO 250, in STARTTLS mode
  STARTTLS 220 and EHLO again 250, MAIL FROM 250, one RCPT TO per recipient in order each
  expecting 250 or 251, DATA 354, the end of the data 250, each stage aborting the whole
  send with a ProtocolError that carries the stage name, the code received and all the
  reply lines exactly when the code of the reply read is not among those expected; the
  reply to QUIT is read and accepted with any code; and a result is returned only after
  every stage has passed.
\<close>

theorem smtpSendMail_stage_machine:
  "smtpSendMail config mail = spec_session config mail
   \<and> (request w = (Inr (), w1) \<and> readReply s w1 = (Inr reply, w2) \<longrightarrow>
        spec_stage request s name expected w =
          (if code reply \<in> set expected then (Inr reply, w2)
           else (Inl (ProtocolError name (code reply) (lines reply)), w2)))
   \<and> (request w = (Inr (), w1) \<and> readReply s w1 = (Inr reply, w2) \<longrightarrow>
        spec_final_stage request s w = (Inr (), w2))"
proof (intro conjI impI)
  show "smtpSendMail config mail = spec_session config mail"
    by (rule smtpSendMail_stages)
next
  assume "request w = (Inr (), w1) \<and> readReply s w1 = (Inr reply, w2)"
  then show "spec_stage request s name expected w =
          (if code reply \<in> set expected then (Inr reply, w2)
           else (Inl (ProtocolError name (code reply) (lines reply)), w2))"
    using spec_stage_run [of request w w1 s reply w2 name expected] by blast
next
  assume "request w = (Inr (), w1) \<and> readReply s w1 = (Inr reply, w2)"
  then show "spec_final_stage request s w = (Inr (), w2)"
    using spec_final_stage_run [of request w w1 s reply w2] by blast
qed

lemma says_550: "fst (readReply Initial server_says_550) =
    Inr \<lparr>code = 550, lines = [''550 no such user'']\<rparr>"
  by code_simp

theorem smtpSendMail_stage_machine_witness:
  "fst (readReply Initial server_says_550) = Inr \<lparr>code = 550, lines = [''550 no such user'']\<rparr>
   \<and> fst (spec_stage (io_return ()) Initial ''RCPT TO'' [250, 251] server_says_550) =
        Inl (ProtocolError ''RCPT TO'' 550 [''550 no such user''])
   \<and> fst (spec_final_stage (io_return ()) Initial server_says_550) = Inr ()
   \<and> fst (spec_session cfg465 mail1 server_rejects_rcpt) =
        Inl (ProtocolError ''RCPT TO'' 550 [''550 no such user''])
   \<and> fst (spec_session cfg465 mail1 server_accepts) = Inr \<lparr>messageId = ''id''\<rparr>"
proof -
  obtain w2 where r: "readReply Initial server_says_550 =
      (Inr \<lparr>code = 550, lines = [''550 no such user'']\<rparr>, w2)"
    using says_550 by (cases "readReply Initial server_says_550") auto
  have q: "io_return () server_says_550 = (Inr (), server_says_550)"
    by (simp add: io_return_def)
  from smtpSendMail_stage_machine [of cfg465 mail1 "io_return ()" server_says_550 server_says_550
      Initial "\<lparr>code = 550, lines = [''550 no such user'']\<rparr>" w2 "''RCPT TO''" "[250, 251]"]
    q r
  have a: "spec_session cfg465 mail1 = smtpSendMail cfg465 mail1"
    and b: "spec_stage (io_return ()) Initial ''RCPT TO'' [250, 251] server_says_550 =
        (Inl (ProtocolError ''RCPT TO'' 550 [''550 no such user'']), w2)"
    and c: "spec_final_stage (io_return ()) Initial server_says_550 = (Inr (), w2)"
    by simp_all
  from a b c says_550 rejects_rcpt_result accepts_result show ?thesis by simp
qed


end
